theory Spec2Isabelle
  imports Main "HOL-Library.Sublist"
begin

section \<open>Python values used by the backend\<close>

text \<open>
  The backend is Python. A \<open>str\<close> is modelled as a \<open>string\<close>; one \<open>char\<close> stands for one
  code point, so the model covers the texts whose code points are below 256. Python's
  unbounded \<open>int\<close> is \<open>int\<close>. An exception is a value of the type \<open>exn\<close>, carried on the left
  of a sum.
\<close>

datatype exn = ValueError string | KeyError string | IndexError string | ServiceError string

text \<open>\<open>str(e)\<close>: the message of an exception; a \<open>KeyError\<close> shows its key in quotes.\<close>

fun exn_str :: "exn \<Rightarrow> string" where
  "exn_str (ValueError m) = m"
| "exn_str (KeyError k) = [CHR 0x27] @ k @ [CHR 0x27]"
| "exn_str (IndexError m) = m"
| "exn_str (ServiceError m) = m"

text \<open>\<open>str(n)\<close> for an integer, in decimal.\<close>

fun str_nat :: "nat \<Rightarrow> string" where
  "str_nat n =
     (if n < 10 then [char_of (48 + n)]
      else str_nat (n div 10) @ [char_of (48 + n mod 10)])"

definition str_int :: "int \<Rightarrow> string" where
  "str_int i = (if i < 0 then CHR ''-'' # str_nat (nat (- i)) else str_nat (nat i))"

text \<open>\<open>str.isspace\<close> on the code points below 256: what \<open>str.strip()\<close> removes.\<close>

definition py_isspace :: "char \<Rightarrow> bool" where
  "py_isspace c = (of_char c \<in> {9, 10, 11, 12, 13, 28, 29, 30, 31, 32, 133, 160 :: nat})"

text \<open>\<open>s.strip()\<close>: leading and trailing whitespace removed.\<close>

definition py_strip :: "string \<Rightarrow> string" where
  "py_strip s = rev (dropWhile py_isspace (rev (dropWhile py_isspace s)))"

text \<open>
  \<open>text.split(sep)\<close> for a non-empty separator: the pieces between the non-overlapping
  occurrences of \<open>sep\<close>, found from the left. The accumulator holds the piece being read.
  With an empty separator Python raises \<open>ValueError\<close>; the callers check that before.
\<close>

fun split_from :: "string \<Rightarrow> string \<Rightarrow> string \<Rightarrow> string list" where
  "split_from sep acc [] = [acc]"
| "split_from sep acc (c # cs) =
     (if sep \<noteq> [] \<and> prefix sep (c # cs)
      then acc # split_from sep [] (drop (length sep - 1) cs)
      else split_from sep (acc @ [c]) cs)"

definition py_split :: "string \<Rightarrow> string \<Rightarrow> exn + string list" where
  "py_split text sep =
     (if sep = [] then Inl (ValueError ''empty separator'') else Inr (split_from sep [] text))"

text \<open>
  \<open>text[i:j]\<close> for arbitrary integers: a negative index counts from the end, and both
  ends are clamped to the string.
\<close>

definition py_index :: "nat \<Rightarrow> int \<Rightarrow> nat" where
  "py_index n i = (if i < 0 then nat (max 0 (int n + i)) else min n (nat i))"

definition py_slice :: "string \<Rightarrow> int \<Rightarrow> int \<Rightarrow> string" where
  "py_slice s i j =
     (let a = py_index (length s) i; b = py_index (length s) j
      in take (b - a) (drop a s))"

text \<open>
  \<open>range(0, stop, step)\<close> as a list. A zero step raises \<open>ValueError\<close>; the number of
  elements is the ceiling of \<open>stop / step\<close> when that is positive.
\<close>

definition py_range0 :: "int \<Rightarrow> int \<Rightarrow> exn + int list" where
  "py_range0 stop step =
     (if step = 0 then Inl (ValueError ''range() arg 3 must not be zero'')
      else if step > 0
        then Inr (map (\<lambda>k. int k * step) [0 ..< nat ((stop + step - 1) div step)])
        else Inr (map (\<lambda>k. int k * step) [0 ..< nat ((stop + step + 1) div step)]))"

section \<open>Chunker: \<open>DataIngestion.recursive_chunk_text\<close>\<close>

text \<open>The separators of \<open>recursive_chunk_text\<close>, coarsest first; the last one is empty.\<close>

definition separators :: "string list" where
  "separators = [[CHR 0x0A, CHR 0x0A], [CHR 0x0A], ''. '', '' '', '''']"

text \<open>
  The branch taken when no separator is left: slices of \<open>chunk_size\<close> characters, starting
  every \<open>chunk_size - overlap\<close> characters.
\<close>

definition hard_split :: "int \<Rightarrow> int \<Rightarrow> string \<Rightarrow> exn + string list" where
  "hard_split chunk_size overlap text =
     (case py_range0 (int (length text)) (chunk_size - overlap) of
        Inl e \<Rightarrow> Inl e
      | Inr is \<Rightarrow> Inr (map (\<lambda>i. py_slice text i (i + chunk_size)) is))"

text \<open>
  The piece added for one element of \<open>splits\<close>: the separator is put back unless it is
  one of the two newline separators.
\<close>

definition next_piece :: "string \<Rightarrow> string \<Rightarrow> string" where
  "next_piece separator split =
     (if separator \<notin> set [[CHR 0x0A, CHR 0x0A], [CHR 0x0A]] then split @ separator else split)"

text \<open>
  The greedy loop over \<open>splits\<close>. The state is \<open>current_chunk\<close> and \<open>final_chunks\<close>; after the
  loop a non-empty \<open>current_chunk\<close> is flushed.
\<close>

fun accumulate :: "int \<Rightarrow> string \<Rightarrow> string list \<Rightarrow> string \<Rightarrow> string list \<Rightarrow> string list" where
  "accumulate chunk_size separator [] current_chunk final_chunks =
     (if current_chunk \<noteq> [] then final_chunks @ [py_strip current_chunk] else final_chunks)"
| "accumulate chunk_size separator (split # splits) current_chunk final_chunks =
     (let piece = next_piece separator split in
      if int (length current_chunk) + int (length piece) > chunk_size
      then accumulate chunk_size separator splits piece
             (if current_chunk \<noteq> [] then final_chunks @ [py_strip current_chunk]
              else final_chunks)
      else accumulate chunk_size separator splits (current_chunk @ piece) final_chunks)"

text \<open>
  \<open>split_text\<close> and its validation loop, which recurses with the remaining separators on
  every chunk that is still too long. The first exception raised ends the call.
\<close>

fun split_text :: "int \<Rightarrow> int \<Rightarrow> string \<Rightarrow> string list \<Rightarrow> exn + string list"
  and validate :: "int \<Rightarrow> int \<Rightarrow> string list \<Rightarrow> string list \<Rightarrow> exn + string list" where
  "split_text chunk_size overlap text [] =
     (if int (length text) \<le> chunk_size then Inr [text]
      else hard_split chunk_size overlap text)"
| "split_text chunk_size overlap text (separator # rest) =
     (if int (length text) \<le> chunk_size then Inr [text]
      else case py_split text separator of
             Inl e \<Rightarrow> Inl e
           | Inr splits \<Rightarrow>
               validate chunk_size overlap rest (accumulate chunk_size separator splits [] []))"
| "validate chunk_size overlap rest [] = Inr []"
| "validate chunk_size overlap rest (chunk # chunks) =
     (if int (length chunk) > chunk_size
      then (case split_text chunk_size overlap chunk rest of
              Inl e \<Rightarrow> Inl e
            | Inr sub \<Rightarrow>
                (case validate chunk_size overlap rest chunks of
                   Inl e \<Rightarrow> Inl e
                 | Inr validated \<Rightarrow> Inr (sub @ validated)))
      else (case validate chunk_size overlap rest chunks of
              Inl e \<Rightarrow> Inl e
            | Inr validated \<Rightarrow> Inr (chunk # validated)))"

definition recursive_chunk_text :: "string \<Rightarrow> int \<Rightarrow> int \<Rightarrow> exn + string list" where
  "recursive_chunk_text text chunk_size overlap = split_text chunk_size overlap text separators"

text \<open>
  The same recursion with a bound on its depth: every call of \<open>split_text\<close> spends one unit
  of fuel, and \<open>None\<close> is the value of a call that runs out of it.
\<close>

fun split_text_fuel ::
    "nat \<Rightarrow> int \<Rightarrow> int \<Rightarrow> string \<Rightarrow> string list \<Rightarrow> (exn + string list) option"
  and validate_fuel ::
    "nat \<Rightarrow> int \<Rightarrow> int \<Rightarrow> string list \<Rightarrow> string list \<Rightarrow> (exn + string list) option" where
  "split_text_fuel 0 chunk_size overlap text seps = None"
| "split_text_fuel (Suc fuel) chunk_size overlap text [] =
     Some (if int (length text) \<le> chunk_size then Inr [text]
           else hard_split chunk_size overlap text)"
| "split_text_fuel (Suc fuel) chunk_size overlap text (separator # rest) =
     (if int (length text) \<le> chunk_size then Some (Inr [text])
      else case py_split text separator of
             Inl e \<Rightarrow> Some (Inl e)
           | Inr splits \<Rightarrow>
               validate_fuel fuel chunk_size overlap rest
                 (accumulate chunk_size separator splits [] []))"
| "validate_fuel fuel chunk_size overlap rest [] = Some (Inr [])"
| "validate_fuel fuel chunk_size overlap rest (chunk # chunks) =
     (if int (length chunk) > chunk_size
      then (case split_text_fuel fuel chunk_size overlap chunk rest of
              None \<Rightarrow> None
            | Some (Inl e) \<Rightarrow> Some (Inl e)
            | Some (Inr sub) \<Rightarrow>
                (case validate_fuel fuel chunk_size overlap rest chunks of
                   None \<Rightarrow> None
                 | Some (Inl e) \<Rightarrow> Some (Inl e)
                 | Some (Inr validated) \<Rightarrow> Some (Inr (sub @ validated))))
      else (case validate_fuel fuel chunk_size overlap rest chunks of
              None \<Rightarrow> None
            | Some (Inl e) \<Rightarrow> Some (Inl e)
            | Some (Inr validated) \<Rightarrow> Some (Inr (chunk # validated))))"

text \<open>
  Separator normalisation: whitespace and the full stop, the characters the separators
  are made of, are left out when two texts are compared.
\<close>

definition normalize_text :: "string \<Rightarrow> string" where
  "normalize_text s = filter (\<lambda>c. \<not> py_isspace c \<and> c \<noteq> CHR ''.'') s"

section \<open>Vector store: \<open>VectorStore\<close>\<close>

text \<open>
  A metadata dictionary maps a key to a string or an integer. A sparse vector is a
  dictionary too, kept as an association list; it is truthy when it is not empty. Dense
  vectors, sparse weights and scores are floats the backend never inspects: they are the
  type parameters \<open>'v\<close>, \<open>'w\<close> and \<open>'sc\<close>.
\<close>

datatype mvalue = MStr string | MInt int

type_synonym metadata = "string \<rightharpoonup> mvalue"

type_synonym 'w sparse = "(string \<times> 'w) list"

text \<open>A vector as \<open>upsert\<close> receives it: a dictionary in which any key may be missing.\<close>

record ('v, 'w) vec =
  vec_id :: "string option"
  vec_values :: "'v option"
  vec_sparse_values :: "'w sparse option"
  vec_metadata :: "metadata option"

text \<open>A vector as \<open>upsert\<close> sends it to the index.\<close>

record ('v, 'w) fvec =
  fv_id :: string
  fv_values :: 'v
  fv_metadata :: metadata
  fv_sparse_values :: "'w sparse option"

text \<open>The filter of a query: \<open>{field: {"$eq": value}}\<close>.\<close>

datatype mfilter = FilterEq string mvalue

record ('v, 'w) query_args =
  qa_vector :: 'v
  qa_top_k :: int
  qa_include_metadata :: bool
  qa_filter :: mfilter
  qa_sparse_vector :: "'w sparse option"

record 'sc match =
  match_id :: string
  match_score :: 'sc
  match_metadata :: metadata

text \<open>
  The body of the loop of \<open>upsert\<close>: \<open>client_id\<close> is written into the metadata only when
  the key is absent; a missing \<open>id\<close> or \<open>values\<close> raises \<open>KeyError\<close>.
\<close>

definition format_vector :: "string \<Rightarrow> ('v, 'w) vec \<Rightarrow> exn + ('v, 'w) fvec" where
  "format_vector client_id v =
     (let metadata = (case vec_metadata v of None \<Rightarrow> Map.empty | Some m \<Rightarrow> m);
          metadata = (if metadata ''client_id'' = None
                      then metadata(''client_id'' \<mapsto> MStr client_id) else metadata)
      in case vec_id v of
           None \<Rightarrow> Inl (KeyError ''id'')
         | Some i \<Rightarrow>
             (case vec_values v of
                None \<Rightarrow> Inl (KeyError ''values'')
              | Some vals \<Rightarrow>
                  Inr \<lparr>fv_id = i, fv_values = vals, fv_metadata = metadata,
                       fv_sparse_values = vec_sparse_values v\<rparr>))"

fun format_vectors :: "string \<Rightarrow> ('v, 'w) vec list \<Rightarrow> exn + ('v, 'w) fvec list" where
  "format_vectors client_id [] = Inr []"
| "format_vectors client_id (v # vs) =
     (case format_vector client_id v of
        Inl e \<Rightarrow> Inl e
      | Inr fv \<Rightarrow>
          (case format_vectors client_id vs of
             Inl e \<Rightarrow> Inl e
           | Inr fvs \<Rightarrow> Inr (fv # fvs)))"

text \<open>
  \<open>VectorStore.upsert\<close>. The index is a remote service: \<open>index_upsert\<close> is its upsert call,
  which returns the state of the index after the call and the exception it raised, if
  any. Every exception is caught and the count 0 is returned.
\<close>

definition upsert ::
  "('i \<Rightarrow> ('v, 'w) fvec list \<Rightarrow> exn option \<times> 'i) \<Rightarrow> 'i \<Rightarrow> ('v, 'w) vec list \<Rightarrow> string
     \<Rightarrow> int \<times> 'i" where
  "upsert index_upsert idx vectors client_id =
     (case format_vectors client_id vectors of
        Inl e \<Rightarrow> (0, idx)
      | Inr formatted_vectors \<Rightarrow>
          (case index_upsert idx formatted_vectors of
             (Some e, idx') \<Rightarrow> (0, idx')
           | (None, idx') \<Rightarrow> (int (length formatted_vectors), idx')))"

text \<open>The arguments \<open>VectorStore.search\<close> passes to the query call of the index.\<close>

definition search_query_args ::
  "'v \<Rightarrow> 'w sparse option \<Rightarrow> int \<Rightarrow> string \<Rightarrow> ('v, 'w) query_args" where
  "search_query_args query_vector sparse_vector top_k client_id =
     \<lparr>qa_vector = query_vector, qa_top_k = top_k, qa_include_metadata = True,
      qa_filter = FilterEq ''client_id'' (MStr client_id),
      qa_sparse_vector =
        (case sparse_vector of
           None \<Rightarrow> None
         | Some sv \<Rightarrow> if sv \<noteq> [] then Some sv else None)\<rparr>"

text \<open>
  \<open>VectorStore.search\<close>; \<open>index_query\<close> is the query call of the remote index. The matches
  are returned as they come, and an exception gives the empty list.
\<close>

definition search ::
  "(('v, 'w) query_args \<Rightarrow> exn + 'sc match list) \<Rightarrow> 'v \<Rightarrow> 'w sparse option \<Rightarrow> int \<Rightarrow> string
     \<Rightarrow> 'sc match list" where
  "search index_query query_vector sparse_vector top_k client_id =
     (case index_query (search_query_args query_vector sparse_vector top_k client_id) of
        Inl e \<Rightarrow> []
      | Inr matches \<Rightarrow>
          map (\<lambda>m. \<lparr>match_id = match_id m, match_score = match_score m,
                    match_metadata = match_metadata m\<rparr>) matches)"

text \<open>
  What the wire contract asks of the index: every match of a query satisfies the filter
  of that query.
\<close>

definition filter_matches :: "mfilter \<Rightarrow> metadata \<Rightarrow> bool" where
  "filter_matches f md = (case f of FilterEq k v \<Rightarrow> md k = Some v)"

definition enforces_filter :: "(('v, 'w) query_args \<Rightarrow> exn + 'sc match list) \<Rightarrow> bool" where
  "enforces_filter index_query =
     (\<forall>args matches. index_query args = Inr matches \<longrightarrow>
        (\<forall>m \<in> set matches. filter_matches (qa_filter args) (match_metadata m)))"

text \<open>
  An index held in memory, for running the store on concrete data: vectors keyed by id,
  a query that keeps the vectors satisfying the filter and returns the first \<open>top_k\<close>.
\<close>

fun mem_upsert_one :: "('v, 'w) fvec \<Rightarrow> ('v, 'w) fvec list \<Rightarrow> ('v, 'w) fvec list" where
  "mem_upsert_one fv [] = [fv]"
| "mem_upsert_one fv (x # xs) =
     (if fv_id x = fv_id fv then fv # xs else x # mem_upsert_one fv xs)"

definition mem_upsert ::
  "('v, 'w) fvec list \<Rightarrow> ('v, 'w) fvec list \<Rightarrow> exn option \<times> ('v, 'w) fvec list" where
  "mem_upsert idx fvs = (None, fold mem_upsert_one fvs idx)"

definition mem_query ::
  "('v, 'w) fvec list \<Rightarrow> ('v, 'w) query_args \<Rightarrow> exn + 'v match list" where
  "mem_query idx args =
     Inr (map (\<lambda>fv. \<lparr>match_id = fv_id fv, match_score = fv_values fv,
                     match_metadata = fv_metadata fv\<rparr>)
            (take (nat (qa_top_k args))
               (filter (\<lambda>fv. filter_matches (qa_filter args) (fv_metadata fv)) idx)))"

section \<open>Ingestion: \<open>DataIngestion.ingest_url\<close>\<close>

text \<open>
  The collaborators the backend calls and does not implement: the page fetcher, the HTML
  to text conversion, the embedding service, the BM25 encoder, the remote index and the
  completion service. Each one is a field; the methods of the backend that wrap a
  collaborator in \<open>try/except\<close> and return a default are modelled with the default as
  the value (\<open>get_embeddings\<close> gives the empty list when the call fails).
\<close>

type_synonym payload = "(string \<times> string) list"

record ('v, 'w, 'sc, 'i) services =
  fetch_url :: "string \<Rightarrow> string option"
  extract_text :: "string \<Rightarrow> string"
  get_embeddings :: "string list \<Rightarrow> 'v list"
  get_sparse_vector :: "string \<Rightarrow> 'w sparse"
  get_sparse_vector_query :: "string \<Rightarrow> 'w sparse"
  index_upsert :: "'i \<Rightarrow> ('v, 'w) fvec list \<Rightarrow> exn option \<times> 'i"
  index_query :: "('v, 'w) query_args \<Rightarrow> exn + 'sc match list"
  services_initialized :: bool
  create_completion :: "payload \<Rightarrow> exn + string option list"
  create_completion_stream :: "payload \<Rightarrow> string option list list \<times> exn option"

record ingest_result =
  ir_success :: bool
  ir_message :: string
  ir_url :: string
  ir_chunks :: "int option"
  ir_stored :: "int option"

definition ingest_failure :: "string \<Rightarrow> string \<Rightarrow> ingest_result" where
  "ingest_failure msg url =
     \<lparr>ir_success = False, ir_message = msg, ir_url = url, ir_chunks = None, ir_stored = None\<rparr>"

text \<open>The vector built for the chunk at position \<open>i\<close>.\<close>

definition vector_to_store ::
  "('v, 'w, 'sc, 'i) services \<Rightarrow> string \<Rightarrow> string \<Rightarrow> nat \<times> string \<times> 'v \<Rightarrow> ('v, 'w) vec" where
  "vector_to_store sv url client_id entry =
     (case entry of (i, chunk, embedding) \<Rightarrow>
        \<lparr>vec_id = Some (url @ ''_'' @ str_nat i),
         vec_values = Some embedding,
         vec_sparse_values = Some (get_sparse_vector sv chunk),
         vec_metadata = Some [''client_id'' \<mapsto> MStr client_id, ''url'' \<mapsto> MStr url,
                              ''chunk_index'' \<mapsto> MInt (int i), ''text'' \<mapsto> MStr chunk]\<rparr>)"

text \<open>
  \<open>ingest_url\<close>, with the state of the remote index passed in and returned. The chunker is
  called with its default sizes; its exception is caught by the handler of the method.
\<close>

definition ingest_url ::
  "('v, 'w, 'sc, 'i) services \<Rightarrow> 'i \<Rightarrow> string \<Rightarrow> string \<Rightarrow> ingest_result \<times> 'i" where
  "ingest_url sv idx url client_id =
     (case fetch_url sv url of
        None \<Rightarrow> (ingest_failure ''Unable to fetch content'' url, idx)
      | Some html \<Rightarrow>
          (let text = extract_text sv html in
           if text = [] then (ingest_failure ''Unable to extract text'' url, idx)
           else
             (case recursive_chunk_text text 500 50 of
                Inl e \<Rightarrow> (ingest_failure (''Data ingestion failed: '' @ exn_str e) url, idx)
              | Inr chunks \<Rightarrow>
                  (let embeddings = get_embeddings sv chunks in
                   if embeddings = []
                   then (ingest_failure ''Unable to generate embeddings'' url, idx)
                   else
                     (let vectors_to_store =
                            map (vector_to_store sv url client_id)
                              (enumerate 0 (zip chunks embeddings));
                          (count, idx') = upsert (index_upsert sv) idx vectors_to_store client_id
                      in (\<lparr>ir_success = True, ir_message = ''Data ingestion successful'',
                           ir_url = url, ir_chunks = Some (int (length chunks)),
                           ir_stored = Some count\<rparr>, idx'))))))"

section \<open>Conversation: the \<open>chat\<close> handler\<close>

subsection \<open>\<open>extract_email\<close>\<close>

text \<open>
  The pattern is
  \<^verbatim>\<open>\b[A-Za-z0-9._%+-]+@[A-Za-z0-9.-]+\.[A-Z|a-z]{2,}\b\<close>.
  \<open>re.findall\<close> scans the text from the left and \<open>extract_email\<close> keeps the first match.
  The matcher below follows the backtracking of the regular expression engine: each
  repetition first takes the longest run and then gives characters back one by one.
\<close>

definition is_alnum_ascii :: "char \<Rightarrow> bool" where
  "is_alnum_ascii c =
     (let n = (of_char c :: nat)
      in (48 \<le> n \<and> n \<le> 57) \<or> (65 \<le> n \<and> n \<le> 90) \<or> (97 \<le> n \<and> n \<le> 122))"

text \<open>\<open>\w\<close> on the code points below 256: alphanumeric characters and the underscore.\<close>

definition is_word_char :: "char \<Rightarrow> bool" where
  "is_word_char c =
     (let n = (of_char c :: nat)
      in is_alnum_ascii c \<or> n = 95 \<or> n \<in> {170, 178, 179, 181, 185, 186, 188, 189, 190}
         \<or> (192 \<le> n \<and> n \<le> 214) \<or> (216 \<le> n \<and> n \<le> 246) \<or> 248 \<le> n)"

definition is_local_char :: "char \<Rightarrow> bool" where
  "is_local_char c = (is_alnum_ascii c \<or> c \<in> set ''._%+-'')"

definition is_domain_char :: "char \<Rightarrow> bool" where
  "is_domain_char c = (is_alnum_ascii c \<or> c \<in> set ''.-'')"

definition is_tld_char :: "char \<Rightarrow> bool" where
  "is_tld_char c =
     (let n = (of_char c :: nat)
      in (65 \<le> n \<and> n \<le> 90) \<or> (97 \<le> n \<and> n \<le> 122) \<or> c = CHR ''|'')"

text \<open>\<open>\b\<close> between the character before a position and the character at it.\<close>

definition word_boundary :: "char option \<Rightarrow> char option \<Rightarrow> bool" where
  "word_boundary prev nxt =
     ((case prev of None \<Rightarrow> False | Some c \<Rightarrow> is_word_char c)
      \<noteq> (case nxt of None \<Rightarrow> False | Some c \<Rightarrow> is_word_char c))"

text \<open>The first alternative that succeeds, in the order tried.\<close>

fun first_some :: "('a \<Rightarrow> 'b option) \<Rightarrow> 'a list \<Rightarrow> 'b option" where
  "first_some f [] = None"
| "first_some f (x # xs) = (case f x of Some y \<Rightarrow> Some y | None \<Rightarrow> first_some f xs)"

text \<open>
  The lengths a greedy repetition of the class \<open>P\<close> with at least \<open>m\<close> characters tries at
  the head of \<open>s\<close>: the longest run first.
\<close>

definition greedy_lengths :: "(char \<Rightarrow> bool) \<Rightarrow> nat \<Rightarrow> string \<Rightarrow> nat list" where
  "greedy_lengths P m s = rev [m ..< Suc (length (takeWhile P s))]"

definition head_opt :: "string \<Rightarrow> char option" where
  "head_opt s = (case s of [] \<Rightarrow> None | c # _ \<Rightarrow> Some c)"

text \<open>
  A match of the pattern starting at the head of \<open>s\<close>, where \<open>prev\<close> is the character in
  front of \<open>s\<close>; the result is the matched text.
\<close>

definition match_tld :: "string \<Rightarrow> nat \<Rightarrow> string \<Rightarrow> string option" where
  "match_tld s consumed s4 =
     first_some
       (\<lambda>nt. if word_boundary (head_opt (drop (nt - 1) s4)) (head_opt (drop nt s4))
             then Some (take (consumed + nt) s) else None)
       (greedy_lengths is_tld_char 2 s4)"

definition match_domain :: "string \<Rightarrow> nat \<Rightarrow> string \<Rightarrow> string option" where
  "match_domain s consumed s2 =
     first_some
       (\<lambda>nd. if head_opt (drop nd s2) = Some CHR ''.''
             then match_tld s (consumed + nd + 1) (drop (nd + 1) s2) else None)
       (greedy_lengths is_domain_char 1 s2)"

definition match_email_at :: "char option \<Rightarrow> string \<Rightarrow> string option" where
  "match_email_at prev s =
     (if word_boundary prev (head_opt s)
      then first_some
             (\<lambda>nl. if head_opt (drop nl s) = Some CHR ''@''
                   then match_domain s (nl + 1) (drop (nl + 1) s) else None)
             (greedy_lengths is_local_char 1 s)
      else None)"

fun scan_email :: "char option \<Rightarrow> string \<Rightarrow> string option" where
  "scan_email prev [] = None"
| "scan_email prev (c # cs) =
     (case match_email_at prev (c # cs) of
        Some m \<Rightarrow> Some m
      | None \<Rightarrow> scan_email (Some c) cs)"

definition extract_email :: "string \<Rightarrow> string option" where
  "extract_email text = scan_email None text"

text \<open>
  The pattern read as a description of a token, apart from any way of searching for it.
  A token is email-shaped, between the character \<open>prev\<close> in front of it and the character
  \<open>nxt\<close> behind it, when it is a local part of one or more characters of
  \<^verbatim>\<open>[A-Za-z0-9._%+-]\<close>, an \<open>@\<close>, a domain of one or more characters of
  \<^verbatim>\<open>[A-Za-z0-9.-]\<close>, a full stop and two or more characters of \<^verbatim>\<open>[A-Z|a-z]\<close>, with
  a word boundary at each end.
\<close>

definition email_shaped :: "char option \<Rightarrow> string \<Rightarrow> char option \<Rightarrow> bool" where
  "email_shaped prev tok nxt =
     (\<exists>local domain tld.
        tok = local @ ''@'' @ domain @ ''.'' @ tld
        \<and> local \<noteq> [] \<and> list_all is_local_char local
        \<and> domain \<noteq> [] \<and> list_all is_domain_char domain
        \<and> 2 \<le> length tld \<and> list_all is_tld_char tld
        \<and> word_boundary prev (head_opt tok)
        \<and> word_boundary (Some (last tok)) nxt)"

text \<open>The character in front of the position \<open>i\<close> of a text, if there is one.\<close>

definition char_before :: "string \<Rightarrow> nat \<Rightarrow> char option" where
  "char_before s i = (if i = 0 then None else head_opt (drop (i - 1) s))"

text \<open>The token \<open>tok\<close> stands at the position \<open>i\<close> of the text and is email-shaped there.\<close>

definition email_token_at :: "string \<Rightarrow> nat \<Rightarrow> string \<Rightarrow> bool" where
  "email_token_at s i tok =
     (prefix tok (drop i s)
      \<and> email_shaped (char_before s i) tok (head_opt (drop (i + length tok) s)))"

text \<open>
  The same in lengths: the first \<open>nl\<close> characters of \<open>s\<close> are the local part, the \<open>nd\<close>
  characters after the \<open>@\<close> the domain, the \<open>nt\<close> characters after the full stop the last
  part, and there is a word boundary in front of \<open>s\<close> and behind the last part.
\<close>

definition shaped_split :: "char option \<Rightarrow> string \<Rightarrow> nat \<Rightarrow> nat \<Rightarrow> nat \<Rightarrow> bool" where
  "shaped_split prev s nl nd nt =
     (word_boundary prev (head_opt s)
      \<and> 1 \<le> nl \<and> nl \<le> length (takeWhile is_local_char s)
      \<and> head_opt (drop nl s) = Some CHR ''@''
      \<and> 1 \<le> nd \<and> nd \<le> length (takeWhile is_domain_char (drop (nl + 1) s))
      \<and> head_opt (drop nd (drop (nl + 1) s)) = Some CHR ''.''
      \<and> 2 \<le> nt \<and> nt \<le> length (takeWhile is_tld_char (drop (nd + 1) (drop (nl + 1) s)))
      \<and> word_boundary (head_opt (drop (nt - 1) (drop (nd + 1) (drop (nl + 1) s))))
                       (head_opt (drop nt (drop (nd + 1) (drop (nl + 1) s)))))"

subsection \<open>The tables\<close>

text \<open>
  The three SQLite tables. A session is keyed by its id; messages and leads are kept in
  the order of their row ids. The statements of the handler are modelled as succeeding.
\<close>

record session_row =
  s_client_id :: string
  s_email_provided :: bool
  s_turn_count :: int

record message_row =
  m_session_id :: string
  m_role :: string
  m_content :: string

record lead_row =
  l_name :: string
  l_email :: string
  l_company :: "string option"
  l_phone :: "string option"
  l_status :: string
  l_notes :: string

record database =
  sessions :: "string \<rightharpoonup> session_row"
  messages :: "message_row list"
  leads :: "lead_row list"

definition init_db :: database where
  "init_db = \<lparr>sessions = Map.empty, messages = [], leads = []\<rparr>"

text \<open>\<open>INSERT INTO sessions\<close> of a new session.\<close>

definition insert_session :: "database \<Rightarrow> string \<Rightarrow> string \<Rightarrow> database" where
  "insert_session db session_id client_id =
     db\<lparr>sessions := (sessions db)(session_id \<mapsto>
          \<lparr>s_client_id = client_id, s_email_provided = False, s_turn_count = 0\<rparr>)\<rparr>"

text \<open>\<open>UPDATE sessions SET turn_count = ? WHERE session_id = ?\<close>.\<close>

definition update_turn_count :: "database \<Rightarrow> string \<Rightarrow> int \<Rightarrow> database" where
  "update_turn_count db session_id n =
     (case sessions db session_id of
        None \<Rightarrow> db
      | Some row \<Rightarrow> db\<lparr>sessions := (sessions db)(session_id \<mapsto> row\<lparr>s_turn_count := n\<rparr>)\<rparr>)"

text \<open>\<open>UPDATE sessions SET email_provided = 1 WHERE session_id = ?\<close>.\<close>

definition update_email_provided :: "database \<Rightarrow> string \<Rightarrow> database" where
  "update_email_provided db session_id =
     (case sessions db session_id of
        None \<Rightarrow> db
      | Some row \<Rightarrow>
          db\<lparr>sessions := (sessions db)(session_id \<mapsto> row\<lparr>s_email_provided := True\<rparr>)\<rparr>)"

definition insert_message :: "database \<Rightarrow> string \<Rightarrow> string \<Rightarrow> string \<Rightarrow> database" where
  "insert_message db session_id role content =
     db\<lparr>messages := messages db @
          [\<lparr>m_session_id = session_id, m_role = role, m_content = content\<rparr>]\<rparr>"

definition insert_lead :: "database \<Rightarrow> lead_row \<Rightarrow> database" where
  "insert_lead db lead = db\<lparr>leads := leads db @ [lead]\<rparr>"

text \<open>
  \<open>SELECT role, content FROM messages WHERE session_id = ? ORDER BY id DESC LIMIT 6\<close>,
  reversed: the last six messages of the session, oldest first.
\<close>

definition recent_history :: "database \<Rightarrow> string \<Rightarrow> payload" where
  "recent_history db session_id =
     (let rows = filter (\<lambda>m. m_session_id m = session_id) (messages db)
      in map (\<lambda>m. (m_role m, m_content m)) (drop (length rows - 6) rows))"

subsection \<open>The handler\<close>

record chat_json =
  j_message :: "string option"
  j_session_id :: "string option"
  j_client_id :: "string option"
  j_stream :: "bool option"

record chat_data =
  cd_response :: string
  cd_session_id :: string
  cd_turn_count :: int
  cd_email_provided :: bool

datatype sse_event = SseChunk string | SseDone string int bool | SseError string

text \<open>
  A reply is either the JSON of \<open>create_response\<close> (status code, \<open>success\<close>, \<open>message\<close>,
  \<open>data\<close>) or the events of a streamed response.
\<close>

datatype reply = JsonReply int bool string "chat_data option" | EventStream "sse_event list"

text \<open>
  What a call of the handler leaves behind: the reply, the tables, and the messages sent
  to the completion service when that call was made.
\<close>

record chat_outcome =
  reply :: reply
  db_after :: database
  sent :: "payload option"

definition auto_lead_notes :: "string \<Rightarrow> string" where
  "auto_lead_notes session_id = ''Auto-created from chat session, Session ID: '' @ session_id"

text \<open>The lead row inserted when an email is first seen in a session.\<close>

definition auto_lead :: "string \<Rightarrow> string \<Rightarrow> string \<Rightarrow> lead_row" where
  "auto_lead message email session_id =
     \<lparr>l_name = (if CHR ''@'' \<in> set message
                then (case py_split message ''@'' of Inr (name # _) \<Rightarrow> name | _ \<Rightarrow> [])
                else ''Unknown''),
      l_email = email, l_company = None, l_phone = None, l_status = ''new'',
      l_notes = auto_lead_notes session_id\<rparr>"

text \<open>
  The first part of the handler: the session is read or created, the turn count is
  written, the user message is stored, and a lead is created when the message holds an
  email and the session has none yet. The result is the tables after the commits,
  \<open>new_turn_count\<close>, \<open>session_data["email_provided"]\<close> and \<open>email_captured\<close>.
\<close>

definition record_turn ::
  "database \<Rightarrow> string \<Rightarrow> string \<Rightarrow> string \<Rightarrow> database \<times> int \<times> bool \<times> bool" where
  "record_turn db session_id client_id message =
     (let (db1, turn_count, email_provided) =
            (case sessions db session_id of
               None \<Rightarrow> (insert_session db session_id client_id, 0, False)
             | Some row \<Rightarrow> (db, s_turn_count row, s_email_provided row));
          new_turn_count = turn_count + 1;
          db2 = update_turn_count db1 session_id new_turn_count;
          db3 = insert_message db2 session_id ''user'' message
      in case extract_email message of
           Some email \<Rightarrow>
             if \<not> email_provided
             then (update_email_provided (insert_lead db3 (auto_lead message email session_id))
                     session_id, new_turn_count, True, True)
             else (db3, new_turn_count, email_provided, False)
         | None \<Rightarrow> (db3, new_turn_count, email_provided, False))"

definition ask_for_email :: string where
  "ask_for_email = ''The user has NOT provided their email address yet. If the user shows strong interest or the conversation reaches a natural point to follow up, please politely ask for their email address to send more information or schedule a demo.''"

definition do_not_ask :: string where
  "do_not_ask = ''The user has ALREADY provided their email address. Do not ask for it again.''"

definition email_status_instruction :: "bool \<Rightarrow> string" where
  "email_status_instruction email_provided = (if \<not> email_provided then ask_for_email else do_not_ask)"

text \<open>The system prompt: a fixed text, the instruction about the email, the context.\<close>

definition prompt_head :: string where
  "prompt_head = ''You are a B2B sales expert. Your responses must be concise, professional, and persuasive.'' @ [CHR 0x0A, CHR 0x0A]
     @ ''Please answer user questions based on the provided context information. '' @ [CHR 0x0A]
     @ ''If context information is insufficient, please answer based on your professional knowledge but mention you are not 100% sure about specific details not in context.'' @ [CHR 0x0A]
     @ ''Maintain a professional, friendly, and concise tone.'' @ [CHR 0x0A, CHR 0x0A]"

definition system_prompt :: "string \<Rightarrow> string \<Rightarrow> string" where
  "system_prompt instruction context_text =
     prompt_head @ instruction @ [CHR 0x0A, CHR 0x0A] @ ''Context Information:'' @ [CHR 0x0A]
       @ context_text"

definition mvalue_str :: "mvalue \<Rightarrow> string" where
  "mvalue_str v = (case v of MStr s \<Rightarrow> s | MInt i \<Rightarrow> str_int i)"

definition context_line :: "'sc match \<Rightarrow> string" where
  "context_line item =
     ''- [Source: ''
       @ (case match_metadata item ''url'' of None \<Rightarrow> ''unknown'' | Some u \<Rightarrow> mvalue_str u)
       @ ''] ''
       @ (case match_metadata item ''text'' of None \<Rightarrow> [] | Some t \<Rightarrow> mvalue_str t)"

fun join_lines :: "string list \<Rightarrow> string" where
  "join_lines [] = []"
| "join_lines [l] = l"
| "join_lines (l # ls) = l @ [CHR 0x0A] @ join_lines ls"

definition context_text :: "'sc match list \<Rightarrow> string" where
  "context_text context_results =
     (if context_results \<noteq> [] then join_lines (map context_line context_results)
      else ''No relevant context available'')"

text \<open>
  The messages sent to the completion service: the system prompt, then the recent
  history of the session.
\<close>

definition messages_payload ::
  "('v, 'w, 'sc, 'i) services \<Rightarrow> database \<Rightarrow> string \<Rightarrow> string \<Rightarrow> string \<Rightarrow> bool \<Rightarrow> 'v
     \<Rightarrow> payload" where
  "messages_payload sv db session_id client_id message email_provided query_vector =
     (let context_results =
            search (index_query sv) query_vector (Some (get_sparse_vector_query sv message)) 5
              client_id
      in (''system'',
          system_prompt (email_status_instruction email_provided) (context_text context_results))
         # recent_history db session_id)"

text \<open>The content of a streamed chunk: that of its first choice, when it is not empty.\<close>

definition chunk_content :: "string option list \<Rightarrow> string option" where
  "chunk_content choices =
     (case choices of
        [] \<Rightarrow> None
      | c # _ \<Rightarrow> (case c of None \<Rightarrow> None | Some s \<Rightarrow> if s \<noteq> [] then Some s else None))"

text \<open>
  The generator of the streamed response, run to its end: one event for each content,
  then the assistant message is stored and the final event sent; an exception of the
  completion service ends the stream with an error event instead.
\<close>

definition generate ::
  "('v, 'w, 'sc, 'i) services \<Rightarrow> database \<Rightarrow> payload \<Rightarrow> string \<Rightarrow> int \<Rightarrow> bool
     \<Rightarrow> sse_event list \<times> database" where
  "generate sv db payload session_id new_turn_count email_provided =
     (case create_completion_stream sv payload of (chunks, failure) \<Rightarrow>
        (let contents = List.map_filter chunk_content chunks in
         case failure of
           Some e \<Rightarrow> (map SseChunk contents @ [SseError (exn_str e)], db)
         | None \<Rightarrow>
             (map SseChunk contents @ [SseDone session_id new_turn_count email_provided],
              insert_message db session_id ''assistant'' (concat contents))))"

text \<open>The single response: the content of the first choice, or a fixed apology.\<close>

definition complete ::
  "('v, 'w, 'sc, 'i) services \<Rightarrow> database \<Rightarrow> payload \<Rightarrow> string \<Rightarrow> int \<Rightarrow> bool
     \<Rightarrow> reply \<times> database" where
  "complete sv db payload session_id new_turn_count email_provided =
     (case create_completion sv payload of
        Inl e \<Rightarrow> (JsonReply 500 False (''Error processing request: '' @ exn_str e) None, db)
      | Inr [] \<Rightarrow>
          (JsonReply 500 False (''Error processing request: list index out of range'') None, db)
      | Inr (content # _) \<Rightarrow>
          (let assistant_response =
                 (case content of
                    None \<Rightarrow> ''Sorry, I cannot generate a response.''
                  | Some c \<Rightarrow> if c \<noteq> [] then c else ''Sorry, I cannot generate a response.'')
           in (JsonReply 200 True []
                 (Some \<lparr>cd_response = assistant_response, cd_session_id = session_id,
                        cd_turn_count = new_turn_count, cd_email_provided = email_provided\<rparr>),
               insert_message db session_id ''assistant'' assistant_response)))"

text \<open>The fields of the request, with the defaults of \<open>json_data.get\<close>.\<close>

definition json_message :: "chat_json \<Rightarrow> string" where
  "json_message json_data = (case j_message json_data of None \<Rightarrow> [] | Some m \<Rightarrow> m)"

definition json_session_id :: "chat_json \<Rightarrow> string" where
  "json_session_id json_data =
     (case j_session_id json_data of None \<Rightarrow> ''default_session'' | Some s \<Rightarrow> s)"

definition json_client_id :: "chat_json \<Rightarrow> string" where
  "json_client_id json_data =
     (case j_client_id json_data of None \<Rightarrow> ''demo_client'' | Some c \<Rightarrow> c)"

text \<open>The handler of \<open>POST /api/chat\<close>.\<close>

definition chat ::
  "('v, 'w, 'sc, 'i) services \<Rightarrow> chat_json option \<Rightarrow> database \<Rightarrow> chat_outcome" where
  "chat sv body db =
     (case body of
        None \<Rightarrow>
          \<lparr>reply = JsonReply 400 False ''Request body must contain JSON data'' None,
           db_after = db, sent = None\<rparr>
      | Some json_data \<Rightarrow>
          (let message = json_message json_data;
               session_id = json_session_id json_data;
               client_id = json_client_id json_data
           in if message = []
              then \<lparr>reply = JsonReply 400 False ''Message content cannot be empty'' None,
                    db_after = db, sent = None\<rparr>
              else if \<not> services_initialized sv
              then \<lparr>reply = JsonReply 500 False
                              ''Services not initialized, please check environment variable configuration''
                              None,
                    db_after = db, sent = None\<rparr>
              else
                (case record_turn db session_id client_id message of
                   (db1, new_turn_count, email_provided, email_captured) \<Rightarrow>
                     (case get_embeddings sv [message] of
                        [] \<Rightarrow>
                          \<lparr>reply = JsonReply 500 False
                                     ''Unable to generate message embedding vector'' None,
                           db_after = db1, sent = None\<rparr>
                      | query_vector # _ \<Rightarrow>
                          (let payload = messages_payload sv db1 session_id client_id message
                                           email_provided query_vector
                           in if j_stream json_data = Some True
                              then (case generate sv db1 payload session_id new_turn_count
                                           (email_provided \<or> email_captured) of
                                      (events, db2) \<Rightarrow>
                                        \<lparr>reply = EventStream events, db_after = db2,
                                         sent = Some payload\<rparr>)
                              else (case complete sv db1 payload session_id new_turn_count
                                           (email_provided \<or> email_captured) of
                                      (r, db2) \<Rightarrow>
                                        \<lparr>reply = r, db_after = db2, sent = Some payload\<rparr>))))))"

text \<open>
  The tables after a sequence of calls of the handler, each call with the collaborators
  as they answer at that time.
\<close>

fun final_db ::
  "(('v, 'w, 'sc, 'i) services \<times> chat_json option) list \<Rightarrow> database \<Rightarrow> database" where
  "final_db [] db = db"
| "final_db ((sv, body) # calls) db = final_db calls (db_after (chat sv body db))"

subsection \<open>What is observed of a session\<close>

text \<open>The \<open>email_provided\<close> flag of a session; a session without a row has not provided one.\<close>

definition email_provided_in :: "database \<Rightarrow> string \<Rightarrow> bool" where
  "email_provided_in db session_id =
     (case sessions db session_id of None \<Rightarrow> False | Some row \<Rightarrow> s_email_provided row)"

definition turn_count_in :: "database \<Rightarrow> string \<Rightarrow> int" where
  "turn_count_in db session_id =
     (case sessions db session_id of None \<Rightarrow> 0 | Some row \<Rightarrow> s_turn_count row)"

text \<open>The leads the handler created for a session: they carry the id in their notes.\<close>

definition auto_leads :: "database \<Rightarrow> string \<Rightarrow> lead_row list" where
  "auto_leads db session_id =
     filter (\<lambda>lead. l_notes lead = auto_lead_notes session_id) (leads db)"

text \<open>A reply that reports an error: a JSON error response, or a stream ended by an error event.\<close>

definition reports_error :: "reply \<Rightarrow> bool" where
  "reports_error r =
     (case r of
        JsonReply status success msg data \<Rightarrow> \<not> success \<and> 400 \<le> status
      | EventStream events \<Rightarrow>
          (case rev events of SseError msg # _ \<Rightarrow> True | _ \<Rightarrow> False))"

section \<open>Concrete data\<close>


definition two_tenants :: "(nat, nat) fvec list" where
  "two_tenants =
     [\<lparr>fv_id = ''a_0'', fv_values = 1, fv_metadata = [''client_id'' \<mapsto> MStr ''A''],
       fv_sparse_values = None\<rparr>,
      \<lparr>fv_id = ''b_0'', fv_values = 2, fv_metadata = [''client_id'' \<mapsto> MStr ''B''],
       fv_sparse_values = None\<rparr>]"

text \<open>A page of two lines of 300 letters each.\<close>

definition two_paragraphs :: string where
  "two_paragraphs = replicate 300 CHR ''a'' @ [CHR 0x0A] @ replicate 300 CHR ''b''"

text \<open>
  Collaborators whose embedding service answers every batch with a single vector, and
  whose index is the one held in memory.
\<close>

definition partial_services :: "(nat, nat, nat, (nat, nat) fvec list) services" where
  "partial_services =
     \<lparr>fetch_url = (\<lambda>url. Some ''<main>page</main>''),
      extract_text = (\<lambda>html. two_paragraphs),
      get_embeddings = (\<lambda>texts. [7]),
      get_sparse_vector = (\<lambda>t. []),
      get_sparse_vector_query = (\<lambda>t. []),
      index_upsert = mem_upsert,
      index_query = (\<lambda>args. Inr []),
      services_initialized = True,
      create_completion = (\<lambda>p. Inr []),
      create_completion_stream = (\<lambda>p. ([], None))\<rparr>"

text \<open>The vector \<open>upsert\<close> sends to the index for an entry built by \<open>ingest_url\<close>.\<close>

definition formatted_entry ::
  "('v, 'w, 'sc, 'i) services \<Rightarrow> string \<Rightarrow> string \<Rightarrow> nat \<times> string \<times> 'v \<Rightarrow> ('v, 'w) fvec" where
  "formatted_entry sv url client_id entry =
     (case entry of (i, chunk, embedding) \<Rightarrow>
        \<lparr>fv_id = url @ ''_'' @ str_nat i, fv_values = embedding,
         fv_metadata = [''client_id'' \<mapsto> MStr client_id, ''url'' \<mapsto> MStr url,
                        ''chunk_index'' \<mapsto> MInt (int i), ''text'' \<mapsto> MStr chunk],
         fv_sparse_values = Some (get_sparse_vector sv chunk)\<rparr>)"

text \<open>
  The invariant of the tables behind the lead trigger: a session has at most one lead
  created by the handler, and none while its \<open>email_provided\<close> flag is unset.
\<close>

definition leads_match_flags :: "database \<Rightarrow> bool" where
  "leads_match_flags db =
     (\<forall>session_id. length (auto_leads db session_id)
        \<le> (if email_provided_in db session_id then 1 else 0))"

text \<open>
  Collaborators that answer every call, a variant whose completion service fails, and two
  requests of the session \<open>s1\<close>, each with an email in its message.
\<close>

definition demo_services :: "(nat, nat, nat, (nat, nat) fvec list) services" where
  "demo_services =
     \<lparr>fetch_url = (\<lambda>url. None),
      extract_text = (\<lambda>html. []),
      get_embeddings = (\<lambda>texts. [1]),
      get_sparse_vector = (\<lambda>t. []),
      get_sparse_vector_query = (\<lambda>t. []),
      index_upsert = mem_upsert,
      index_query = mem_query two_tenants,
      services_initialized = True,
      create_completion = (\<lambda>p. Inr [Some ''Hello'']),
      create_completion_stream = (\<lambda>p. ([[Some ''Hel''], [Some ''lo'']], None))\<rparr>"

definition failing_services :: "(nat, nat, nat, (nat, nat) fvec list) services" where
  "failing_services =
     demo_services
       \<lparr>create_completion := (\<lambda>p. Inl (ServiceError ''timeout'')),
        create_completion_stream := (\<lambda>p. ([[Some ''Hel'']], Some (ServiceError ''timeout'')))\<rparr>"

definition jane_request :: chat_json where
  "jane_request = \<lparr>j_message = Some ''I am jane@acme.com'', j_session_id = Some ''s1'',
                    j_client_id = Some ''A'', j_stream = Some False\<rparr>"

definition bob_request :: chat_json where
  "bob_request = \<lparr>j_message = Some ''or bob@acme.com'', j_session_id = Some ''s1'',
                   j_client_id = Some ''A'', j_stream = Some False\<rparr>"

text \<open>A request whose message holds two emails.\<close>

definition two_email_request :: chat_json where
  "two_email_request = \<lparr>j_message = Some ''to a@b.co or c@d.io'', j_session_id = Some ''s2'',
                         j_client_id = Some ''A'', j_stream = Some False\<rparr>"

section \<open>The chunker: properties\<close>

subsection \<open>Termination\<close>

lemma fuel_agrees:
  "length seps < fuel \<longrightarrow>
     split_text_fuel fuel cs ov t seps = Some (split_text cs ov t seps)"
  "length rest < fuel \<longrightarrow>
     validate_fuel fuel cs ov rest chunks = Some (validate cs ov rest chunks)"
proof (induction cs ov t seps and cs ov rest chunks arbitrary: fuel and fuel
       rule: split_text_validate.induct)
  case (1 cs ov t)
  then show ?case by (cases fuel) auto
next
  case (2 cs ov t separator rest)
  then show ?case by (cases fuel) (auto split: sum.splits)
next
  case (3 cs ov rest)
  then show ?case by simp
next
  case (4 cs ov rest chunk chunks)
  then show ?case by (auto split: sum.splits)
qed

text \<open>
  Claim C7. For every text, every chunk size and every overlap the recursive splitting
  ends: a call with \<open>n\<close> separators left needs a recursion depth of at most \<open>n + 1\<close>, since
  each recursive call drops the first separator, and the level without separators makes
  no recursive call. With that much fuel the bounded recursion never runs out and gives
  the value of \<open>split_text\<close> (chunks, or the exception raised); this holds in particular for
  the five separators of \<open>recursive_chunk_text\<close>.
\<close>

theorem split_text_terminates:
  "split_text_fuel (Suc (length seps)) chunk_size overlap t seps
     = Some (split_text chunk_size overlap t seps)
   \<and> split_text_fuel (Suc (length separators)) chunk_size overlap t separators
     = Some (recursive_chunk_text t chunk_size overlap)"
  using fuel_agrees(1) by (simp add: recursive_chunk_text_def)

subsection \<open>The bound at the character level\<close>

lemma py_slice_length: "0 \<le> n \<Longrightarrow> int (length (py_slice s i (i + n))) \<le> n"
  by (auto simp: py_slice_def py_index_def Let_def)

lemma hard_split_cases:
  assumes "0 < cs"
  shows "case hard_split cs ov t of
           Inr chunks \<Rightarrow> \<forall>c\<in>set chunks. int (length c) \<le> cs
         | Inl e \<Rightarrow> ov = cs"
  using assms py_slice_length[of cs t]
  by (auto simp: hard_split_def py_range0_def split: sum.splits)

lemma py_strip_plain:
  assumes "s \<noteq> []" "\<not> py_isspace (hd s)" "\<not> py_isspace (last s)"
  shows "py_strip s = s"
proof -
  have a: "dropWhile py_isspace s = s"
    using assms by (simp add: dropWhile_eq_self_iff)
  have "dropWhile py_isspace (rev s) = rev s"
    using assms by (simp add: dropWhile_eq_self_iff hd_rev)
  with a show ?thesis by (simp add: py_strip_def)
qed

lemma not_space_a: "\<not> py_isspace CHR ''a''"
  by (simp add: py_isspace_def)

lemma outer_level_may_exceed:
  assumes "0 \<le> cs"
  shows "accumulate cs [CHR 0x0A] [replicate (Suc (nat cs)) CHR ''a''] [] []
           = [replicate (Suc (nat cs)) CHR ''a'']"
proof -
  have "py_strip (replicate (Suc (nat cs)) CHR ''a'') = replicate (Suc (nat cs)) CHR ''a''"
    by (rule py_strip_plain) (simp_all add: not_space_a del: replicate_Suc)
  then show ?thesis using assms
    by (simp add: next_piece_def Let_def del: replicate_Suc)
qed

text \<open>
  Claim C3. For a positive chunk size, the call of \<open>split_text\<close> with no separator left
  either returns chunks that all have at most \<open>chunk_size\<close> characters, or raises, which
  happens only for a text longer than \<open>chunk_size\<close> when the overlap equals the chunk size.
  The levels above give no such bound on the chunks their greedy loop completes: for
  every chunk size some input makes that loop complete a chunk longer than \<open>chunk_size\<close>.
\<close>

theorem hard_split_within_chunk_size:
  assumes "0 < chunk_size"
  shows "(case split_text chunk_size overlap t [] of
            Inr chunks \<Rightarrow> \<forall>c\<in>set chunks. int (length c) \<le> chunk_size
          | Inl e \<Rightarrow> overlap = chunk_size \<and> chunk_size < int (length t))
         \<and> (\<exists>sep splits. \<exists>c\<in>set (accumulate chunk_size sep splits [] []).
               chunk_size < int (length c))"
proof
  show "case split_text chunk_size overlap t [] of
            Inr chunks \<Rightarrow> \<forall>c\<in>set chunks. int (length c) \<le> chunk_size
          | Inl e \<Rightarrow> overlap = chunk_size \<and> chunk_size < int (length t)"
    using hard_split_cases[OF assms, of overlap t] by (auto split: sum.splits)
next
  have "accumulate chunk_size [CHR 0x0A] [replicate (Suc (nat chunk_size)) CHR ''a''] [] []
           = [replicate (Suc (nat chunk_size)) CHR ''a'']"
    using assms by (intro outer_level_may_exceed) simp
  moreover have "chunk_size < int (length (replicate (Suc (nat chunk_size)) CHR ''a''))"
    by simp
  ultimately show "\<exists>sep splits. \<exists>c\<in>set (accumulate chunk_size sep splits [] []).
               chunk_size < int (length c)"
    by (metis list.set_intros(1))
qed

theorem hard_split_within_chunk_size_witness:
  "(0::int) < 2 \<and> split_text 2 0 ''aaaaa'' [] = Inr [''aa'', ''aa'', ''a'']
   \<and> list_all (\<lambda>c. int (length c) \<le> 2) [''aa'', ''aa'', ''a'']"
proof -
  have e: "split_text 2 0 ''aaaaa'' [] = Inr [''aa'', ''aa'', ''a'']"
    by (simp add: hard_split_def py_range0_def py_slice_def py_index_def upt_rec)
  show ?thesis
    using hard_split_within_chunk_size[of 2 0 "''aaaaa''"] e by simp
qed

subsection \<open>Texts the chunker rejects\<close>

lemma split_from_no_separator:
  "sep \<noteq> [] \<Longrightarrow> hd sep \<notin> set t \<Longrightarrow> split_from sep acc t = [acc @ t]"
proof (induction t arbitrary: acc)
  case Nil
  then show ?case by simp
next
  case (Cons c cs)
  from Cons.prems have "\<not> prefix sep (c # cs)"
    by (cases sep) auto
  with Cons show ?case by simp
qed

lemma accumulate_single:
  "t \<noteq> [] \<Longrightarrow> accumulate cs sep [t] [] [] = [py_strip (next_piece sep t)]"
  by (simp add: Let_def next_piece_def)

lemma validate_single:
  "cs < int (length c) \<Longrightarrow> validate cs ov rest [c] = split_text cs ov c rest"
  by (simp split: sum.splits)

lemma split_text_single_piece:
  assumes "sep \<noteq> []" "hd sep \<notin> set t" "cs < int (length t)" "t \<noteq> []"
    and "cs < int (length (py_strip (next_piece sep t)))"
  shows "split_text cs ov t (sep # rest) = split_text cs ov (py_strip (next_piece sep t)) rest"
proof -
  have "py_split t sep = Inr [t]"
    using assms by (simp add: py_split_def split_from_no_separator)
  moreover have "accumulate cs sep [t] [] [] = [py_strip (next_piece sep t)]"
    using assms by (intro accumulate_single)
  ultimately show ?thesis
    using assms by (simp add: validate_single del: accumulate.simps validate.simps)
qed

lemma py_strip_sentence:
  assumes "t \<noteq> []" "\<not> py_isspace (hd t)"
  shows "py_strip (t @ ''. '') = t @ ''.''"
proof -
  have a: "dropWhile py_isspace (t @ ''. '') = t @ ''. ''"
    using assms by (cases t) auto
  have "py_isspace CHR '' ''" "\<not> py_isspace CHR ''.''"
    by (simp_all add: py_isspace_def)
  then show ?thesis
    using a by (simp add: py_strip_def)
qed

text \<open>
  A text longer than the chunk size with no whitespace and no full stop in it passes
  every level unsplit and reaches the empty separator, where \<open>split\<close> raises.
\<close>

lemma unbroken_text_raises:
  assumes long: "chunk_size < int (length t)" and t: "t \<noteq> []"
    and plain: "\<forall>c\<in>set t. \<not> py_isspace c \<and> c \<noteq> CHR ''.''"
  shows "recursive_chunk_text t chunk_size overlap = Inl (ValueError ''empty separator'')"
proof -
  have nl: "py_isspace (CHR 0x0A)" and sp: "py_isspace CHR '' ''"
    by (simp_all add: py_isspace_def)
  from t plain have h: "\<not> py_isspace (hd t)" and l: "\<not> py_isspace (last t)"
    by simp_all
  have st: "py_strip t = t"
    using t h l by (rule py_strip_plain)
  have s2: "py_strip (t @ ''. '') = t @ ''.''"
    using t h by (rule py_strip_sentence)
  have n1: "CHR 0x0A \<notin> set t" and n2: "CHR ''.'' \<notin> set t" and n3: "CHR '' '' \<notin> set t"
    using plain nl sp by auto
  let ?rest1 = "[[CHR 0x0A], ''. '', '' '', '''']"
  have "recursive_chunk_text t chunk_size overlap
          = split_text chunk_size overlap t ([CHR 0x0A, CHR 0x0A] # ?rest1)"
    by (simp add: recursive_chunk_text_def separators_def)
  also have "\<dots> = split_text chunk_size overlap t ([CHR 0x0A] # [''. '', '' '', ''''])"
    using split_text_single_piece[of "[CHR 0x0A, CHR 0x0A]" t chunk_size overlap ?rest1]
      long t n1 st by (simp add: next_piece_def)
  also have "\<dots> = split_text chunk_size overlap t (''. '' # ['' '', ''''])"
    using split_text_single_piece[of "[CHR 0x0A]" t chunk_size overlap "[''. '', '' '', '''']"]
      long t n1 st by (simp add: next_piece_def)
  also have "\<dots> = split_text chunk_size overlap (t @ ''.'') ('' '' # [''''])"
    using split_text_single_piece[of "''. ''" t chunk_size overlap "['' '', '''']"]
      long t n2 s2 by (simp add: next_piece_def)
  also have "\<dots> = split_text chunk_size overlap (t @ ''.'') ['''']"
    using split_text_single_piece[of "'' ''" "t @ ''.''" chunk_size overlap "['''']"]
      long t n3 s2 by (simp add: next_piece_def)
  also have "\<dots> = Inl (ValueError ''empty separator'')"
    using long by (simp add: py_split_def)
  finally show ?thesis .
qed

text \<open>
  Claim C2, at the input where the code departs from it. The claim asks that the chunks
  returned reproduce every input text. For a word of 501 letters and the default sizes
  (500, 50) the chunker returns no chunks at all: the recursion reaches the empty
  separator, \<open>text.split("")\<close> raises \<open>ValueError\<close>, and the branch meant to split by
  characters is never entered.
\<close>

theorem long_word_raises:
  "recursive_chunk_text (replicate 501 CHR ''a'') 500 50
     = Inl (ValueError ''empty separator'')"
  by (rule unbroken_text_raises) (simp_all add: not_space_a)

subsection \<open>What the chunks returned hold\<close>

text \<open>
  Whenever \<open>recursive_chunk_text\<close> does return chunks, their concatenation is the input
  text up to separator normalisation.
\<close>

lemma filter_dropWhile_absorbed:
  "(\<And>x. Q x \<Longrightarrow> \<not> P x) \<Longrightarrow> filter P (dropWhile Q xs) = filter P xs"
  by (induction xs) auto

lemma normalize_strip: "normalize_text (py_strip s) = normalize_text s"
proof -
  have "\<And>xs. filter (\<lambda>c. \<not> py_isspace c \<and> c \<noteq> CHR ''.'') (dropWhile py_isspace xs)
          = filter (\<lambda>c. \<not> py_isspace c \<and> c \<noteq> CHR ''.'') xs"
    by (rule filter_dropWhile_absorbed) simp
  then show ?thesis
    by (simp add: normalize_text_def py_strip_def flip: rev_filter)
qed

lemma normalize_append: "normalize_text (a @ b) = normalize_text a @ normalize_text b"
  by (simp add: normalize_text_def)

lemma normalize_Nil: "normalize_text [] = []"
  by (simp add: normalize_text_def)

lemma normalize_next_piece:
  "normalize_text sep = [] \<Longrightarrow> normalize_text (next_piece sep split) = normalize_text split"
  by (simp add: next_piece_def normalize_append)

lemma normalize_concat_snoc:
  "normalize_text (concat (xs @ [x])) = normalize_text (concat xs) @ normalize_text x"
  by (simp add: normalize_append)


lemma normalize_accumulate:
  "normalize_text sep = [] \<Longrightarrow>
   normalize_text (concat (accumulate cs sep splits cur fin))
     = normalize_text (concat fin) @ normalize_text cur @ normalize_text (concat splits)"
proof (induction splits arbitrary: cur fin)
  case Nil
  then show ?case
    by (simp add: normalize_append normalize_strip normalize_Nil)
next
  case (Cons split splits)
  then show ?case
    by (simp add: Let_def normalize_strip normalize_append normalize_next_piece
        normalize_Nil)
qed

lemma normalize_split_from:
  "sep \<noteq> [] \<Longrightarrow> normalize_text sep = [] \<Longrightarrow>
   normalize_text (concat (split_from sep acc t)) = normalize_text (acc @ t)"
proof (induction sep acc t rule: split_from.induct)
  case (1 sep acc)
  then show ?case by simp
next
  case (2 sep acc c cs)
  show ?case
  proof (cases "prefix sep (c # cs)")
    case True
    then obtain r where r: "c # cs = sep @ r"
      by (auto simp: prefix_def)
    with "2.prems" have d: "drop (length sep - 1) cs = r"
      by (cases sep) auto
    have n: "normalize_text (c # cs) = normalize_text r"
      using r "2.prems" by (simp add: normalize_append)
    have "normalize_text (concat (split_from sep acc (c # cs)))
            = normalize_text (acc @ concat (split_from sep [] r))"
      using True "2.prems" d by simp
    also have "\<dots> = normalize_text acc @ normalize_text r"
      using "2.IH"(1) True "2.prems" d by (simp add: normalize_append normalize_Nil)
    finally show ?thesis
      using n by (simp add: normalize_append[of acc "c # cs"])
  next
    case False
    with 2 show ?thesis by simp
  qed
qed


lemma validate_Cons_Inr:
  assumes "validate cs ov rest (chunk # chunks) = Inr out"
  shows "\<exists>a b. out = a @ b \<and> validate cs ov rest chunks = Inr b
           \<and> (if cs < int (length chunk) then split_text cs ov chunk rest = Inr a
               else a = [chunk])"
  using assms by (auto split: sum.splits if_splits)

lemma normalize_chunks:
  "seps \<noteq> [] \<longrightarrow> last seps = [] \<longrightarrow> (\<forall>s\<in>set seps. normalize_text s = []) \<longrightarrow>
     split_text cs ov t seps = Inr out \<longrightarrow> normalize_text (concat out) = normalize_text t"
  "rest \<noteq> [] \<longrightarrow> last rest = [] \<longrightarrow> (\<forall>s\<in>set rest. normalize_text s = []) \<longrightarrow>
     validate cs ov rest chunks = Inr out \<longrightarrow>
     normalize_text (concat out) = normalize_text (concat chunks)"
proof (induction cs ov t seps and cs ov rest chunks arbitrary: out and out
       rule: split_text_validate.induct)
  case (1 cs ov t)
  then show ?case by simp
next
  case (2 cs ov t separator rest)
  show ?case
  proof (intro impI)
    assume la: "last (separator # rest) = []"
      and no: "\<forall>s\<in>set (separator # rest). normalize_text s = []"
      and res: "split_text cs ov t (separator # rest) = Inr out"
    show "normalize_text (concat out) = normalize_text t"
    proof (cases "int (length t) \<le> cs")
      case True
      with res show ?thesis by auto
    next
      case False
      with res have sep: "separator \<noteq> []"
        by (auto simp: py_split_def split: if_splits)
      with la have rest: "rest \<noteq> []" "last rest = []"
        by (auto split: if_splits)
      from sep have sp: "py_split t separator = Inr (split_from separator [] t)"
        by (simp add: py_split_def)
      with False res have v: "validate cs ov rest
          (accumulate cs separator (split_from separator [] t) [] []) = Inr out"
        by simp
      from no have no_rest: "\<forall>s\<in>set rest. normalize_text s = []"
        and no_sep: "normalize_text separator = []"
        by simp_all
      have "normalize_text (concat out)
              = normalize_text
                  (concat (accumulate cs separator (split_from separator [] t) [] []))"
        using "2.IH"[OF False sp] rest no_rest v by blast
      also have "\<dots> = normalize_text (concat (split_from separator [] t))"
        using no_sep by (simp add: normalize_accumulate normalize_Nil)
      also have "\<dots> = normalize_text t"
        using sep no_sep by (simp add: normalize_split_from)
      finally show ?thesis .
    qed
  qed
next
  case (3 cs ov rest)
  then show ?case by simp
next
  case (4 cs ov rest chunk chunks)
  show ?case
  proof (intro impI)
    assume rest: "rest \<noteq> []" "last rest = []" "\<forall>s\<in>set rest. normalize_text s = []"
      and res: "validate cs ov rest (chunk # chunks) = Inr out"
    from validate_Cons_Inr[OF res] obtain a b where
      out: "out = a @ b" and b: "validate cs ov rest chunks = Inr b"
      and a: "if cs < int (length chunk) then split_text cs ov chunk rest = Inr a
              else a = [chunk]"
      by blast
    have na: "normalize_text (concat a) = normalize_text chunk"
    proof (cases "cs < int (length chunk)")
      case True
      with a have "split_text cs ov chunk rest = Inr a" by simp
      with "4.IH"(1)[OF True] rest show ?thesis by blast
    next
      case False
      with a show ?thesis by simp
    qed
    have nb: "normalize_text (concat b) = normalize_text (concat chunks)"
    proof (cases "cs < int (length chunk)")
      case True
      with a have sa: "split_text cs ov chunk rest = Inr a" by simp
      from "4.IH"(2)[OF True sa] rest b show ?thesis by blast
    next
      case False
      from "4.IH"(3)[OF False] rest b show ?thesis by blast
    qed
    from out na nb show "normalize_text (concat out) = normalize_text (concat (chunk # chunks))"
      by (simp add: normalize_append)
  qed
qed

lemma chunks_reproduce_text:
  assumes "recursive_chunk_text t chunk_size overlap = Inr chunks"
  shows "normalize_text (concat chunks) = normalize_text t"
proof -
  have "\<forall>s\<in>set separators. normalize_text s = []"
    by (simp add: separators_def normalize_text_def py_isspace_def)
  moreover have "separators \<noteq> []" "last separators = []"
    by (simp_all add: separators_def)
  ultimately show ?thesis
    using normalize_chunks(1)[of separators chunk_size overlap t chunks] assms
    by (simp add: recursive_chunk_text_def)
qed

subsection \<open>The overlap\<close>

text \<open>
  The overlap is read only by the branch without separators. With the separators of
  \<open>recursive_chunk_text\<close> that branch is never entered, since the empty separator comes
  first: the result does not depend on the overlap.
\<close>

lemma overlap_unused:
  "seps \<noteq> [] \<longrightarrow> last seps = [] \<longrightarrow>
     split_text cs ov t seps = split_text cs ov' t seps"
  "rest \<noteq> [] \<longrightarrow> last rest = [] \<longrightarrow>
     validate cs ov rest chunks = validate cs ov' rest chunks"
proof (induction cs ov t seps and cs ov rest chunks rule: split_text_validate.induct)
  case (1 cs ov t)
  then show ?case by simp
next
  case (2 cs ov t separator rest)
  show ?case
  proof (cases "int (length t) \<le> cs \<or> separator = []")
    case True
    then show ?thesis by (auto simp: py_split_def)
  next
    case False
    then have sp: "py_split t separator = Inr (split_from separator [] t)"
      by (simp add: py_split_def)
    from False have "rest \<noteq> [] \<longrightarrow> last rest = [] \<longrightarrow>
        validate cs ov rest (accumulate cs separator (split_from separator [] t) [] [])
          = validate cs ov' rest (accumulate cs separator (split_from separator [] t) [] [])"
      using "2.IH"[OF _ sp] by simp
    with False sp show ?thesis
      by (auto simp del: accumulate.simps split_from.simps split: if_splits)
  qed
next
  case (3 cs ov rest)
  then show ?case by simp
next
  case (4 cs ov rest chunk chunks)
  show ?case
  proof (intro impI)
    assume r: "rest \<noteq> []" "last rest = []"
    show "validate cs ov rest (chunk # chunks) = validate cs ov' rest (chunk # chunks)"
    proof (cases "cs < int (length chunk)")
      case True
      with "4.IH"(1) r have s: "split_text cs ov chunk rest = split_text cs ov' chunk rest"
        by simp
      show ?thesis
      proof (cases "split_text cs ov chunk rest")
        case (Inl e)
        with s[symmetric] True show ?thesis by simp
      next
        case (Inr sub)
        with "4.IH"(2)[OF True Inr] r
        have "validate cs ov rest chunks = validate cs ov' rest chunks" by simp
        with s[symmetric] True Inr show ?thesis by simp
      qed
    next
      case False
      with "4.IH"(3) r have "validate cs ov rest chunks = validate cs ov' rest chunks"
        by simp
      with False show ?thesis by simp
    qed
  qed
qed

lemma recursive_chunk_text_ignores_overlap:
  "recursive_chunk_text t chunk_size overlap = recursive_chunk_text t chunk_size overlap'"
  using overlap_unused(1)[of separators chunk_size overlap t overlap']
  by (simp add: recursive_chunk_text_def separators_def)

section \<open>The vector store: properties\<close>

subsection \<open>The tenant tag written by \<open>upsert\<close>\<close>






subsection \<open>The tenant filter of \<open>search\<close>\<close>

lemma mem_query_enforces_filter: "enforces_filter (mem_query idx)"
  by (auto simp: enforces_filter_def mem_query_def dest: in_set_takeD)

lemma search_results_satisfy_filter:
  assumes e: "enforces_filter remote_query"
    and r: "r \<in> set (search remote_query query_vector sparse_vector top_k A)"
  shows "match_metadata r ''client_id'' = Some (MStr A)"
proof (cases "remote_query (search_query_args query_vector sparse_vector top_k A)")
  case (Inl x)
  with r show ?thesis by (simp add: search_def)
next
  case (Inr matches)
  with r obtain m where m: "m \<in> set matches" and rm: "match_metadata r = match_metadata m"
    by (auto simp: search_def)
  from e Inr m
  have "filter_matches (qa_filter (search_query_args query_vector sparse_vector top_k A))
          (match_metadata m)"
    unfolding enforces_filter_def by blast
  with rm show ?thesis
    by (simp add: search_query_args_def filter_matches_def)
qed

text \<open>
  Claim C1. For every query vector, sparse vector and \<open>top_k\<close>, the query \<open>search\<close> issues
  for the client \<open>A\<close> carries the filter \<open>client_id = A\<close>. Hence, with an index that applies
  the filter of a query to its matches, no result of a search for \<open>A\<close> has the metadata
  \<open>client_id\<close> of another client \<open>B\<close>.
\<close>

theorem search_scoped_to_client:
  "qa_filter (search_query_args query_vector sparse_vector top_k A)
     = FilterEq ''client_id'' (MStr A)
   \<and> (enforces_filter remote_query \<longrightarrow> A \<noteq> B \<longrightarrow>
        (\<forall>r\<in>set (search remote_query query_vector sparse_vector top_k A).
           match_metadata r ''client_id'' = Some (MStr A)
           \<and> match_metadata r ''client_id'' \<noteq> Some (MStr B)))"
  using search_results_satisfy_filter[of remote_query _ query_vector sparse_vector top_k A]
  by (auto simp: search_query_args_def)

theorem search_scoped_to_client_witness:
  "enforces_filter (mem_query two_tenants) \<and> ''A'' \<noteq> ''B''
   \<and> map match_id (search (mem_query two_tenants) (0::nat) None 5 ''A'') = [''a_0'']
   \<and> list_all (\<lambda>r. match_metadata r ''client_id'' = Some (MStr ''A''))
        (search (mem_query two_tenants) (0::nat) None 5 ''A'')"
proof -
  have e: "enforces_filter (mem_query two_tenants)"
    by (rule mem_query_enforces_filter)
  have s: "map match_id (search (mem_query two_tenants) (0::nat) None 5 ''A'') = [''a_0'']"
    by (simp add: search_def search_query_args_def mem_query_def two_tenants_def
        filter_matches_def)
  from search_scoped_to_client[of 0 None 5 "''A''" "mem_query two_tenants" "''B''"] e
  show ?thesis using s by (simp add: list_all_iff)
qed

section \<open>Ingestion: properties\<close>

lemma split_from_at_separator:
  "sep \<noteq> [] \<Longrightarrow> hd sep \<notin> set x \<Longrightarrow>
     split_from sep acc (x @ sep @ y) = (acc @ x) # split_from sep [] y"
proof (induction x arbitrary: acc)
  case Nil
  then show ?case by (cases sep) auto
next
  case (Cons c x)
  from Cons.prems have "\<not> prefix sep (c # x @ sep @ y)"
    by (cases sep) auto
  with Cons show ?case by simp
qed

lemma split_from_single_newline:
  assumes "CHR 0x0A \<notin> set x" "CHR 0x0A \<notin> set y"
  shows "split_from [CHR 0x0A, CHR 0x0A] acc (x @ [CHR 0x0A] @ y) = [acc @ x @ [CHR 0x0A] @ y]"
  using assms
proof (induction x arbitrary: acc)
  case Nil
  then have "\<not> prefix [CHR 0x0A, CHR 0x0A] (CHR 0x0A # y)"
    by (cases y) auto
  with Nil show ?case
    by (simp add: split_from_no_separator)
next
  case (Cons c x)
  then have "\<not> prefix [CHR 0x0A, CHR 0x0A] (c # x @ [CHR 0x0A] @ y)"
    by auto
  with Cons show ?case by simp
qed

lemma two_paragraphs_chunks:
  assumes ne: "x \<noteq> []" "y \<noteq> []"
    and plain: "\<forall>c\<in>set x \<union> set y. \<not> py_isspace c"
    and lens: "int (length x) \<le> cs" "int (length y) \<le> cs"
      "cs < int (length x) + int (length y)"
  shows "recursive_chunk_text (x @ [CHR 0x0A] @ y) cs ov = Inr [x, y]"
proof -
  let ?t = "x @ [CHR 0x0A] @ y"
  let ?rest = "[''. '', '' '', '''']"
  have nl: "py_isspace (CHR 0x0A)"
    by (simp add: py_isspace_def)
  with plain have nx: "CHR 0x0A \<notin> set x" and ny: "CHR 0x0A \<notin> set y"
    by auto
  have sx: "py_strip x = x" and sy: "py_strip y = y"
    using ne plain by (auto intro!: py_strip_plain)
  have st: "py_strip ?t = ?t"
    using ne plain by (intro py_strip_plain) (simp_all add: hd_append)
  have long: "cs < int (length ?t)"
    using lens by simp
  have "py_split ?t [CHR 0x0A, CHR 0x0A] = Inr [?t]"
    using split_from_single_newline[OF nx ny, of "[]"] by (simp add: py_split_def)
  moreover have "accumulate cs [CHR 0x0A, CHR 0x0A] [?t] [] [] = [?t]"
    using accumulate_single[of ?t cs "[CHR 0x0A, CHR 0x0A]"] st by (simp add: next_piece_def)
  ultimately have first: "recursive_chunk_text ?t cs ov
                            = split_text cs ov ?t ([CHR 0x0A] # ?rest)"
    using long validate_single[OF long, of ov "[CHR 0x0A] # ?rest"]
    by (simp add: recursive_chunk_text_def separators_def
        del: accumulate.simps validate.simps split_from.simps)
  have "py_split ?t [CHR 0x0A] = Inr [x, y]"
    using split_from_at_separator[of "[CHR 0x0A]" x "[]" y] nx ny
    by (simp add: py_split_def split_from_no_separator)
  moreover have "accumulate cs [CHR 0x0A] [x, y] [] [] = [x, y]"
    using ne lens sx sy by (simp add: next_piece_def Let_def)
  ultimately have "split_text cs ov ?t ([CHR 0x0A] # ?rest) = Inr [x, y]"
    using long lens by (simp del: accumulate.simps split_from.simps)
  with first show ?thesis by simp
qed

lemma two_paragraphs_split:
  "recursive_chunk_text two_paragraphs 500 50
     = Inr [replicate 300 CHR ''a'', replicate 300 CHR ''b'']"
  unfolding two_paragraphs_def
  by (rule two_paragraphs_chunks) (simp_all add: py_isspace_def)

lemma format_vector_to_store:
  "format_vector client_id (vector_to_store sv url client_id entry)
     = Inr (formatted_entry sv url client_id entry)"
  by (cases entry) (simp add: format_vector_def vector_to_store_def formatted_entry_def)

lemma format_vectors_to_store:
  "format_vectors client_id (map (vector_to_store sv url client_id) entries)
     = Inr (map (formatted_entry sv url client_id) entries)"
  by (induction entries) (simp_all add: format_vector_to_store)

text \<open>
  Claim C4, as amended. When the embedding call is reached and returns no vector,
  \<open>ingest_url\<close> returns the failure \<open>Unable to generate embeddings\<close> and leaves the index as
  it was. When it returns at least one vector, \<open>ingest_url\<close> does not abort, also when the
  vectors are fewer than the chunks: chunks and vectors are paired in order, the index
  receives one vector for each pair, and the result reports success with the number of
  all chunks.
\<close>

theorem ingest_url_embedding_batches:
  assumes "fetch_url sv url = Some html" and "extract_text sv html \<noteq> []"
    and "recursive_chunk_text (extract_text sv html) 500 50 = Inr chunks"
  shows "(get_embeddings sv chunks = [] \<longrightarrow>
            ingest_url sv idx url client_id
              = (ingest_failure ''Unable to generate embeddings'' url, idx))
         \<and> (get_embeddings sv chunks \<noteq> [] \<longrightarrow>
              (let sent = map (formatted_entry sv url client_id)
                            (enumerate 0 (zip chunks (get_embeddings sv chunks)))
               in length sent = min (length chunks) (length (get_embeddings sv chunks))
                  \<and> ir_success (fst (ingest_url sv idx url client_id))
                  \<and> ir_chunks (fst (ingest_url sv idx url client_id))
                      = Some (int (length chunks))
                  \<and> snd (ingest_url sv idx url client_id) = snd (index_upsert sv idx sent)))"
  using assms
  by (auto simp: ingest_url_def Let_def upsert_def format_vectors_to_store
      split: prod.splits option.splits)

lemma two_paragraphs_nonempty: "two_paragraphs \<noteq> []"
  by (simp add: two_paragraphs_def)

lemma str_nat_0: "str_nat 0 = ''0''"
  by code_simp

text \<open>
  Claim C4 as stated fails: with two chunks and one vector returned, \<open>ingest_url\<close> reports
  success and the index holds the first chunk.
\<close>

theorem partial_batch_is_stored:
  "length (get_embeddings partial_services
             [replicate 300 CHR ''a'', replicate 300 CHR ''b''])
     < length [replicate 300 CHR ''a'', replicate 300 CHR ''b'']
   \<and> ir_success (fst (ingest_url partial_services [] ''u'' ''A''))
   \<and> ir_stored (fst (ingest_url partial_services [] ''u'' ''A'')) = Some 1
   \<and> map fv_id (snd (ingest_url partial_services [] ''u'' ''A'')) = [''u_0'']"
  by (simp add: ingest_url_def partial_services_def two_paragraphs_split Let_def upsert_def
      vector_to_store_def format_vector_def mem_upsert_def enumerate_eq_zip
      two_paragraphs_nonempty str_nat_0 del: str_nat.simps)

theorem ingest_url_embedding_batches_witness:
  "fetch_url partial_services ''u'' = Some ''<main>page</main>''
   \<and> extract_text partial_services ''<main>page</main>'' \<noteq> []
   \<and> recursive_chunk_text (extract_text partial_services ''<main>page</main>'') 500 50
       = Inr [replicate 300 CHR ''a'', replicate 300 CHR ''b'']
   \<and> get_embeddings partial_services [replicate 300 CHR ''a'', replicate 300 CHR ''b''] \<noteq> []
   \<and> ir_success (fst (ingest_url partial_services [] ''u'' ''A''))
   \<and> ir_chunks (fst (ingest_url partial_services [] ''u'' ''A'')) = Some 2"
proof -
  have f: "fetch_url partial_services ''u'' = Some ''<main>page</main>''"
    by (simp add: partial_services_def)
  have x: "extract_text partial_services ''<main>page</main>'' \<noteq> []"
    by (simp add: partial_services_def two_paragraphs_def)
  have c: "recursive_chunk_text (extract_text partial_services ''<main>page</main>'') 500 50
       = Inr [replicate 300 CHR ''a'', replicate 300 CHR ''b'']"
    by (simp add: partial_services_def two_paragraphs_split)
  have e: "get_embeddings partial_services
             [replicate 300 CHR ''a'', replicate 300 CHR ''b''] \<noteq> []"
    by (simp add: partial_services_def)
  from ingest_url_embedding_batches[OF f x c, of "[]" "''A''"] e
  show ?thesis using f x c by (simp add: Let_def)
qed

section \<open>The conversation: properties\<close>

subsection \<open>The commits of one request\<close>

lemma record_turn_sessions:
  assumes "record_turn db sid cid msg = (db', tc, ep, cap)"
  shows "sessions db' =
           (sessions db)(sid \<mapsto>
              \<lparr>s_client_id = (case sessions db sid of None \<Rightarrow> cid | Some r \<Rightarrow> s_client_id r),
               s_email_provided = (email_provided_in db sid \<or> extract_email msg \<noteq> None),
               s_turn_count = turn_count_in db sid + 1\<rparr>)"
  using assms
  by (auto simp: record_turn_def Let_def insert_session_def update_turn_count_def
      update_email_provided_def insert_message_def insert_lead_def email_provided_in_def
      turn_count_in_def split: option.splits if_splits)

lemma record_turn_leads:
  assumes "record_turn db sid cid msg = (db', tc, ep, cap)"
  shows "leads db' =
           leads db @
             (case extract_email msg of
                None \<Rightarrow> []
              | Some e \<Rightarrow> if email_provided_in db sid then [] else [auto_lead msg e sid])"
  using assms
  by (auto simp: record_turn_def Let_def insert_session_def update_turn_count_def
      update_email_provided_def insert_message_def insert_lead_def email_provided_in_def
      split: option.splits if_splits)

lemma record_turn_messages:
  assumes "record_turn db sid cid msg = (db', tc, ep, cap)"
  shows "messages db' =
           messages db @ [\<lparr>m_session_id = sid, m_role = ''user'', m_content = msg\<rparr>]"
  using assms
  by (auto simp: record_turn_def Let_def insert_session_def update_turn_count_def
      update_email_provided_def insert_message_def insert_lead_def
      split: option.splits if_splits)

lemma record_turn_values:
  assumes "record_turn db sid cid msg = (db', tc, ep, cap)"
  shows "tc = turn_count_in db sid + 1
         \<and> ep = (email_provided_in db sid \<or> extract_email msg \<noteq> None)
         \<and> cap = (\<not> email_provided_in db sid \<and> extract_email msg \<noteq> None)"
  using assms
  by (auto simp: record_turn_def Let_def email_provided_in_def turn_count_in_def
      split: option.splits if_splits)

lemma generate_tables:
  "generate sv db payload sid tc ep = (events, db') \<Longrightarrow>
     sessions db' = sessions db \<and> leads db' = leads db"
  by (auto simp: generate_def insert_message_def Let_def split: prod.splits option.splits)

lemma complete_tables:
  "complete sv db payload sid tc ep = (r, db') \<Longrightarrow>
     sessions db' = sessions db \<and> leads db' = leads db"
  by (auto simp: complete_def insert_message_def Let_def split: sum.splits list.splits)

lemma chat_cases:
  "(db_after (chat sv body db) = db \<and> sent (chat sv body db) = None)
   \<or> (\<exists>json db1 tc ep cap.
         body = Some json \<and> json_message json \<noteq> [] \<and> services_initialized sv
         \<and> record_turn db (json_session_id json) (json_client_id json) (json_message json)
             = (db1, tc, ep, cap)
         \<and> sessions (db_after (chat sv body db)) = sessions db1
         \<and> leads (db_after (chat sv body db)) = leads db1
         \<and> (sent (chat sv body db) = None
              \<or> (\<exists>q qs. get_embeddings sv [json_message json] = q # qs
                    \<and> sent (chat sv body db)
                        = Some (messages_payload sv db1 (json_session_id json)
                                  (json_client_id json) (json_message json) ep q))))"
proof (cases body)
  case None
  then show ?thesis by (simp add: chat_def)
next
  case (Some json)
  show ?thesis
  proof (cases "json_message json = [] \<or> \<not> services_initialized sv")
    case True
    with Some show ?thesis by (auto simp: chat_def Let_def)
  next
    case False
    obtain db1 tc ep cap where rt:
      "record_turn db (json_session_id json) (json_client_id json) (json_message json)
         = (db1, tc, ep, cap)"
      by (cases "record_turn db (json_session_id json) (json_client_id json)
                   (json_message json)") auto
    show ?thesis
    proof (cases "get_embeddings sv [json_message json]")
      case Nil
      with Some False rt show ?thesis by (simp add: chat_def)
    next
      case (Cons q qs)
      let ?p = "messages_payload sv db1 (json_session_id json) (json_client_id json)
                  (json_message json) ep q"
      show ?thesis
      proof (cases "j_stream json = Some True")
        case True
        obtain events db2 where g:
          "generate sv db1 ?p (json_session_id json) tc (ep \<or> cap) = (events, db2)"
          by (cases "generate sv db1 ?p (json_session_id json) tc (ep \<or> cap)") auto
        from generate_tables[OF g] Some False rt Cons True g show ?thesis
          by (simp add: chat_def Let_def)
      next
        case nostream: False
        obtain r db2 where c:
          "complete sv db1 ?p (json_session_id json) tc (ep \<or> cap) = (r, db2)"
          by (cases "complete sv db1 ?p (json_session_id json) tc (ep \<or> cap)") auto
        from complete_tables[OF c] Some False rt Cons nostream c show ?thesis
          by (simp add: chat_def Let_def)
      qed
    qed
  qed
qed

subsection \<open>The email flag and the lead of a session\<close>

lemma auto_lead_notes_inj: "auto_lead_notes a = auto_lead_notes b \<longleftrightarrow> a = b"
  by (simp add: auto_lead_notes_def)

lemma email_provided_in_cong:
  "sessions a = sessions b \<Longrightarrow> email_provided_in a sid = email_provided_in b sid"
  by (simp add: email_provided_in_def)

lemma auto_leads_cong: "leads a = leads b \<Longrightarrow> auto_leads a sid = auto_leads b sid"
  by (simp add: auto_leads_def)

lemma record_turn_email_provided:
  assumes "record_turn db sid cid msg = (db', tc, ep, cap)"
  shows "email_provided_in db' s =
           (if s = sid then email_provided_in db sid \<or> extract_email msg \<noteq> None
            else email_provided_in db s)"
  using record_turn_sessions[OF assms] by (simp add: email_provided_in_def)

lemma record_turn_auto_leads:
  assumes "record_turn db sid cid msg = (db', tc, ep, cap)"
  shows "auto_leads db' s =
           auto_leads db s @
             (case extract_email msg of
                None \<Rightarrow> []
              | Some e \<Rightarrow>
                  if \<not> email_provided_in db sid \<and> s = sid then [auto_lead msg e sid] else [])"
  using record_turn_leads[OF assms]
  by (auto simp: auto_leads_def auto_lead_def auto_lead_notes_inj split: option.splits)

lemma chat_tables:
  obtains (unchanged) "db_after (chat sv body db) = db"
  | (turn) json db1 tc ep cap where
      "record_turn db (json_session_id json) (json_client_id json) (json_message json)
         = (db1, tc, ep, cap)"
      "sessions (db_after (chat sv body db)) = sessions db1"
      "leads (db_after (chat sv body db)) = leads db1"
  using chat_cases[of sv body db] by blast

lemma chat_email_provided:
  assumes "email_provided_in db s"
  shows "email_provided_in (db_after (chat sv body db)) s"
proof (cases rule: chat_tables[of sv body db])
  case unchanged
  with assms show ?thesis by simp
next
  case (turn json db1 tc ep cap)
  from assms have "email_provided_in db1 s"
    by (auto simp: record_turn_email_provided[OF turn(1)])
  then show ?thesis
    by (simp add: email_provided_in_cong[OF turn(2)])
qed

lemma chat_auto_leads_kept:
  assumes "email_provided_in db s"
  shows "auto_leads (db_after (chat sv body db)) s = auto_leads db s"
proof (cases rule: chat_tables[of sv body db])
  case unchanged
  then show ?thesis by simp
next
  case (turn json db1 tc ep cap)
  from assms have "auto_leads db1 s = auto_leads db s"
    by (auto simp: record_turn_auto_leads[OF turn(1)] split: option.splits)
  then show ?thesis
    by (simp add: auto_leads_cong[OF turn(3)])
qed

lemma chat_leads_match_flags:
  assumes "leads_match_flags db"
  shows "leads_match_flags (db_after (chat sv body db))"
proof (cases rule: chat_tables[of sv body db])
  case unchanged
  with assms show ?thesis by simp
next
  case (turn json db1 tc ep cap)
  have "leads_match_flags db1"
    unfolding leads_match_flags_def
  proof
    fix sid
    from assms have "length (auto_leads db sid) \<le> (if email_provided_in db sid then 1 else 0)"
      by (simp add: leads_match_flags_def)
    then show "length (auto_leads db1 sid) \<le> (if email_provided_in db1 sid then 1 else 0)"
      using assms
      by (auto simp: record_turn_auto_leads[OF turn(1)] record_turn_email_provided[OF turn(1)]
          leads_match_flags_def split: option.splits if_splits)
  qed
  then show ?thesis
    by (simp add: leads_match_flags_def email_provided_in_cong[OF turn(2)]
        auto_leads_cong[OF turn(3)])
qed

lemma final_db_email_provided:
  "email_provided_in db s \<Longrightarrow> email_provided_in (final_db calls db) s"
  by (induction calls db rule: final_db.induct) (simp_all add: chat_email_provided)

lemma final_db_auto_leads_kept:
  "email_provided_in db s \<Longrightarrow> auto_leads (final_db calls db) s = auto_leads db s"
  by (induction calls db rule: final_db.induct)
    (simp_all add: chat_email_provided chat_auto_leads_kept)

lemma final_db_leads_match_flags:
  "leads_match_flags db \<Longrightarrow> leads_match_flags (final_db calls db)"
  by (induction calls db rule: final_db.induct) (simp_all add: chat_leads_match_flags)

lemma init_db_leads_match_flags: "leads_match_flags init_db"
  by (simp add: leads_match_flags_def init_db_def auto_leads_def)

text \<open>
  Claim C5. Take any sequence of chat requests from the empty tables, and any further
  sequence after it. A session whose \<open>email_provided\<close> flag is set after the first sequence
  still has it set after the second (the flag never reverts, so it is set at most once),
  and the leads created by the handler for that session are the same ones: later
  messages with emails add none. At every point a session has at most one such lead.
\<close>

theorem email_transition_happens_once:
  "(email_provided_in (final_db earlier init_db) session_id \<longrightarrow>
      email_provided_in (final_db later (final_db earlier init_db)) session_id
      \<and> auto_leads (final_db later (final_db earlier init_db)) session_id
          = auto_leads (final_db earlier init_db) session_id)
   \<and> length (auto_leads (final_db earlier init_db) session_id) \<le> 1"
proof -
  have "leads_match_flags (final_db earlier init_db)"
    by (intro final_db_leads_match_flags init_db_leads_match_flags)
  then have "length (auto_leads (final_db earlier init_db) session_id)
      \<le> (if email_provided_in (final_db earlier init_db) session_id then 1 else 0)"
    unfolding leads_match_flags_def by blast
  then have "length (auto_leads (final_db earlier init_db) session_id) \<le> 1"
    by (simp split: if_splits)
  then show ?thesis
    by (simp add: final_db_email_provided final_db_auto_leads_kept)
qed

lemma generate_snd_tables:
  "sessions (snd (generate sv db payload sid tc ep)) = sessions db"
  "leads (snd (generate sv db payload sid tc ep)) = leads db"
  by (auto simp: generate_def insert_message_def Let_def split: prod.splits option.splits)

lemma complete_snd_tables:
  "sessions (snd (complete sv db payload sid tc ep)) = sessions db"
  "leads (snd (complete sv db payload sid tc ep)) = leads db"
  by (auto simp: complete_def insert_message_def Let_def split: sum.splits list.splits)

subsection \<open>The instruction about the email\<close>

lemma chat_turn:
  assumes v: "json_message json \<noteq> []" "services_initialized sv"
    and rt: "record_turn db (json_session_id json) (json_client_id json) (json_message json)
               = (db1, tc, ep, cap)"
  shows "chat sv (Some json) db =
           (case get_embeddings sv [json_message json] of
              [] \<Rightarrow>
                \<lparr>reply = JsonReply 500 False ''Unable to generate message embedding vector'' None,
                 db_after = db1, sent = None\<rparr>
            | q # qs \<Rightarrow>
                (let payload = messages_payload sv db1 (json_session_id json)
                                 (json_client_id json) (json_message json) ep q
                 in if j_stream json = Some True
                    then \<lparr>reply = EventStream
                                    (fst (generate sv db1 payload (json_session_id json) tc
                                            (ep \<or> cap))),
                          db_after = snd (generate sv db1 payload (json_session_id json) tc
                                            (ep \<or> cap)),
                          sent = Some payload\<rparr>
                    else \<lparr>reply = fst (complete sv db1 payload (json_session_id json) tc
                                          (ep \<or> cap)),
                          db_after = snd (complete sv db1 payload (json_session_id json) tc
                                            (ep \<or> cap)),
                          sent = Some payload\<rparr>))"
  using v rt by (simp add: chat_def Let_def split: list.splits prod.splits)

lemma chat_sent_Some:
  assumes "sent (chat sv (Some json) db) = Some payload"
  obtains db1 tc ep cap q qs where
    "json_message json \<noteq> []" "services_initialized sv"
    "record_turn db (json_session_id json) (json_client_id json) (json_message json)
       = (db1, tc, ep, cap)"
    "get_embeddings sv [json_message json] = q # qs"
    "payload = messages_payload sv db1 (json_session_id json) (json_client_id json)
                 (json_message json) ep q"
proof -
  from assms have v: "json_message json \<noteq> []" "services_initialized sv"
    by (auto simp: chat_def Let_def split: if_splits)
  obtain db1 tc ep cap where rt:
    "record_turn db (json_session_id json) (json_client_id json) (json_message json)
       = (db1, tc, ep, cap)"
    by (cases "record_turn db (json_session_id json) (json_client_id json)
                 (json_message json)") auto
  from assms chat_turn[OF v rt] obtain q qs where
    "get_embeddings sv [json_message json] = q # qs"
    "payload = messages_payload sv db1 (json_session_id json) (json_client_id json)
                 (json_message json) ep q"
    by (cases "get_embeddings sv [json_message json]") (auto simp: Let_def split: if_splits)
  with v rt that show ?thesis by blast
qed

lemma no_solicitation_in_fixed_prompt:
  "\<not> sublist ask_for_email (system_prompt do_not_ask [])"
proof
  assume "sublist ask_for_email (system_prompt do_not_ask [])"
  then have "set ask_for_email \<subseteq> set (system_prompt do_not_ask [])"
    by (rule set_mono_sublist)
  moreover have "CHR ''N'' \<in> set ask_for_email"
    by (simp add: ask_for_email_def)
  moreover have "CHR ''N'' \<notin> set (system_prompt do_not_ask [])"
    by (simp add: system_prompt_def do_not_ask_def prompt_head_def)
  ultimately show False by blast
qed

text \<open>
  Claim C6. Consider a request whose messages are sent to the completion service. If the
  session was already \<open>EMAIL_CAPTURED\<close> at some earlier point, whatever requests came
  between, or is \<open>EMAIL_CAPTURED\<close> at the end of this very request, then the system prompt
  sent is built with the instruction not to ask for the email. The prompt around the
  retrieved context does not contain the solicitation directive.
\<close>

theorem no_solicitation_once_captured:
  assumes "sent (chat sv (Some json) (final_db between db)) = Some payload"
    and "email_provided_in db (json_session_id json)
         \<or> email_provided_in (db_after (chat sv (Some json) (final_db between db)))
              (json_session_id json)"
  shows "(\<exists>context history.
            payload = (''system'', system_prompt do_not_ask context) # history)
         \<and> \<not> sublist ask_for_email (system_prompt do_not_ask [])"
proof -
  let ?mid = "final_db between db" and ?sid = "json_session_id json"
  from assms(1) obtain db1 tc ep cap q qs where
    v: "json_message json \<noteq> []" "services_initialized sv"
    and rt: "record_turn ?mid ?sid (json_client_id json) (json_message json) = (db1, tc, ep, cap)"
    and e: "get_embeddings sv [json_message json] = q # qs"
    and p: "payload = messages_payload sv db1 ?sid (json_client_id json) (json_message json) ep q"
    by (rule chat_sent_Some)
  have ep: "ep = (email_provided_in ?mid ?sid \<or> extract_email (json_message json) \<noteq> None)"
    using record_turn_values[OF rt] by simp
  have "sessions (db_after (chat sv (Some json) ?mid)) = sessions db1"
    using chat_turn[OF v rt] e
    by (simp add: Let_def generate_snd_tables complete_snd_tables)
  then have "email_provided_in (db_after (chat sv (Some json) ?mid)) ?sid
               = email_provided_in db1 ?sid"
    by (rule email_provided_in_cong)
  also have "\<dots> = ep"
    using record_turn_email_provided[OF rt, of ?sid] ep by simp
  finally have "ep"
    using assms(2) ep final_db_email_provided[of db ?sid between] by blast
  with p show ?thesis
    by (auto simp: messages_payload_def email_status_instruction_def Let_def
        no_solicitation_in_fixed_prompt)
qed

subsection \<open>A failing completion call\<close>

lemma generate_failure:
  "snd (create_completion_stream sv payload) = Some e \<Longrightarrow>
     generate sv db payload sid tc ep
       = (map SseChunk (List.map_filter chunk_content (fst (create_completion_stream sv payload)))
            @ [SseError (exn_str e)], db)"
  by (cases "create_completion_stream sv payload") (simp add: generate_def Let_def)

lemma complete_failure:
  "create_completion sv payload = Inl e \<Longrightarrow>
     complete sv db payload sid tc ep
       = (JsonReply 500 False (''Error processing request: '' @ exn_str e) None, db)"
  by (simp add: complete_def)

text \<open>
  Claim C8. When the completion call of a request is made and raises (in a single
  response, or while streaming), the reply reports an error, and the tables are those
  left by the commits made before the call: the turn count is one more than before, the
  email flag and the lead of this request are there, and nothing is rolled back.
\<close>

theorem completion_failure_keeps_commits:
  assumes "sent (chat sv (Some json) db) = Some payload"
    and "if j_stream json = Some True
         then snd (create_completion_stream sv payload) = Some e
         else create_completion sv payload = Inl e"
  shows "reports_error (reply (chat sv (Some json) db))
         \<and> db_after (chat sv (Some json) db)
             = fst (record_turn db (json_session_id json) (json_client_id json)
                      (json_message json))
         \<and> turn_count_in (db_after (chat sv (Some json) db)) (json_session_id json)
             = turn_count_in db (json_session_id json) + 1
         \<and> email_provided_in (db_after (chat sv (Some json) db)) (json_session_id json)
             = (email_provided_in db (json_session_id json)
                \<or> extract_email (json_message json) \<noteq> None)
         \<and> leads (db_after (chat sv (Some json) db))
             = leads db @
                 (case extract_email (json_message json) of
                    None \<Rightarrow> []
                  | Some email \<Rightarrow>
                      if email_provided_in db (json_session_id json) then []
                      else [auto_lead (json_message json) email (json_session_id json)])"
proof -
  let ?sid = "json_session_id json"
  from assms(1) obtain db1 tc ep cap q qs where
    v: "json_message json \<noteq> []" "services_initialized sv"
    and rt: "record_turn db ?sid (json_client_id json) (json_message json) = (db1, tc, ep, cap)"
    and e: "get_embeddings sv [json_message json] = q # qs"
    and p: "payload = messages_payload sv db1 ?sid (json_client_id json) (json_message json) ep q"
    by (rule chat_sent_Some)
  have out: "db_after (chat sv (Some json) db) = db1
             \<and> reports_error (reply (chat sv (Some json) db))"
  proof (cases "j_stream json = Some True")
    case True
    with assms(2) have "snd (create_completion_stream sv payload) = Some e" by simp
    from generate_failure[OF this] True e p show ?thesis
      by (simp add: chat_turn[OF v rt] Let_def reports_error_def)
  next
    case False
    with assms(2) have "create_completion sv payload = Inl e" by simp
    from complete_failure[OF this] False e p show ?thesis
      by (simp add: chat_turn[OF v rt] Let_def reports_error_def)
  qed
  have "turn_count_in db1 ?sid = turn_count_in db ?sid + 1"
    using record_turn_sessions[OF rt] by (simp add: turn_count_in_def)
  with out rt record_turn_email_provided[OF rt, of ?sid] record_turn_leads[OF rt]
  show ?thesis by simp
qed

subsection \<open>The fields of the lead\<close>

lemma first_some_SomeD:
  "first_some f xs = Some y \<Longrightarrow> \<exists>x\<in>set xs. f x = Some y"
  by (induction xs) (auto split: option.splits)

lemma match_tld_take:
  assumes "match_tld s k s4 = Some m"
  shows "\<exists>n\<ge>k. m = take n s"
proof -
  from assms obtain nt where "m = take (k + nt) s"
    by (auto simp: match_tld_def dest!: first_some_SomeD split: if_splits)
  then show ?thesis
    by (intro exI[of _ "k + nt"]) simp
qed

lemma match_domain_take:
  assumes "match_domain s k s2 = Some m"
  shows "\<exists>n\<ge>k. m = take n s"
proof -
  from assms obtain nd where "match_tld s (k + nd + 1) (drop (nd + 1) s2) = Some m"
    by (auto simp: match_domain_def dest!: first_some_SomeD split: if_splits)
  from match_tld_take[OF this] obtain n where "k + nd + 1 \<le> n" "m = take n s"
    by blast
  then show ?thesis
    by (intro exI[of _ n]) simp
qed

lemma head_opt_drop:
  assumes "head_opt (drop n s) = Some c"
  shows "n < length s \<and> s ! n = c"
proof -
  from assms obtain r where r: "drop n s = c # r"
    by (cases "drop n s") (auto simp: head_opt_def)
  then have "n < length s"
    by (cases "n < length s") auto
  with nth_via_drop[OF r] show ?thesis by simp
qed

lemma match_email_at_has_at:
  assumes "match_email_at prev s = Some m"
  shows "CHR ''@'' \<in> set m \<and> prefix m s"
proof -
  from assms obtain nl where at: "head_opt (drop nl s) = Some CHR ''@''"
    and d: "match_domain s (nl + 1) (drop (nl + 1) s) = Some m"
    by (auto simp: match_email_at_def dest!: first_some_SomeD split: if_splits)
  from match_domain_take[OF d] obtain n where n: "nl + 1 \<le> n" "m = take n s"
    by blast
  from head_opt_drop[OF at] have "nl < length s" "s ! nl = CHR ''@''"
    by simp_all
  with n have "m ! nl = CHR ''@''" "nl < length m"
    by simp_all
  then have "CHR ''@'' \<in> set m"
    by (metis nth_mem)
  with n show ?thesis
    by (simp add: take_is_prefix)
qed

lemma scan_email_has_at:
  "scan_email prev s = Some m \<Longrightarrow> CHR ''@'' \<in> set m \<and> sublist m s"
proof (induction prev s rule: scan_email.induct)
  case (1 prev)
  then show ?case by simp
next
  case (2 prev c cs)
  show ?case
  proof (cases "match_email_at prev (c # cs)")
    case None
    with 2 have "CHR ''@'' \<in> set m \<and> sublist m cs" by simp
    then show ?thesis by (auto simp: sublist_Cons_right)
  next
    case (Some m')
    with "2.prems" have "m' = m" by simp
    with match_email_at_has_at[OF Some] show ?thesis
      by (auto intro: prefix_imp_sublist)
  qed
qed

lemma extract_email_has_at:
  "extract_email msg = Some email \<Longrightarrow> CHR ''@'' \<in> set msg \<and> sublist email msg"
  using scan_email_has_at[of None msg email]
  by (auto simp: extract_email_def dest: set_mono_sublist)

lemma split_from_head:
  "\<exists>rest. split_from [c] acc t = (acc @ takeWhile (\<lambda>x. x \<noteq> c) t) # rest"
proof (induction t arbitrary: acc)
  case Nil
  then show ?case by simp
next
  case (Cons a t)
  from Cons[of "acc @ [a]"] show ?case by auto
qed

lemma auto_lead_name:
  "CHR ''@'' \<in> set msg \<Longrightarrow>
     l_name (auto_lead msg email sid) = takeWhile (\<lambda>c. c \<noteq> CHR ''@'') msg"
  using split_from_head[of "CHR ''@''" "[]" msg]
  by (auto simp: auto_lead_def py_split_def)

lemma first_some_upt_Some:
  "first_some f (rev [m ..< u]) = Some y \<Longrightarrow>
     \<exists>n. m \<le> n \<and> n < u \<and> f n = Some y \<and> (\<forall>n'. n < n' \<and> n' < u \<longrightarrow> f n' = None)"
proof (induction u)
  case 0
  then show ?case by simp
next
  case (Suc u)
  show ?case
  proof (cases "m \<le> u")
    case False
    with Suc.prems show ?thesis by simp
  next
    case True
    show ?thesis
    proof (cases "f u")
      case (Some z)
      with True Suc.prems have "f u = Some y" by simp
      with True show ?thesis
        by (intro exI[of _ u]) auto
    next
      case None
      with True Suc.prems have "first_some f (rev [m ..< u]) = Some y" by simp
      from Suc.IH[OF this] obtain n where
        n: "m \<le> n" "n < u" "f n = Some y" "\<forall>n'. n < n' \<and> n' < u \<longrightarrow> f n' = None"
        by blast
      have "\<forall>n'. n < n' \<and> n' < Suc u \<longrightarrow> f n' = None"
        using n(4) None by (auto simp: less_Suc_eq)
      with n show ?thesis
        by (intro exI[of _ n]) auto
    qed
  qed
qed

lemma first_some_upt_None:
  "first_some f (rev [m ..< u]) = None \<Longrightarrow> m \<le> n \<Longrightarrow> n < u \<Longrightarrow> f n = None"
proof (induction u)
  case 0
  then show ?case by simp
next
  case (Suc u)
  then show ?case
    by (cases "m \<le> u") (auto simp: less_Suc_eq split: option.splits)
qed

lemma takeWhile_length_iff:
  "n \<le> length (takeWhile P s) \<longleftrightarrow> n \<le> length s \<and> list_all P (take n s)"
proof (induction s arbitrary: n)
  case Nil
  then show ?case by simp
next
  case (Cons c s)
  then show ?case by (cases n) auto
qed

lemma head_opt_Cons: "head_opt (c # r) = Some c"
  by (simp add: head_opt_def)

lemma head_opt_split:
  assumes "head_opt (drop n s) = Some c"
  shows "s = take n s @ c # drop (Suc n) s"
proof -
  from head_opt_drop[OF assms] have "n < length s" "s ! n = c"
    by simp_all
  with id_take_nth_drop[of n s] show ?thesis by simp
qed

lemma head_opt_in_run:
  assumes "n < length (takeWhile P s)"
  shows "\<exists>c. head_opt (drop n s) = Some c \<and> P c"
proof -
  from assms have "Suc n \<le> length (takeWhile P s)" by simp
  then have n: "Suc n \<le> length s" "list_all P (take (Suc n) s)"
    by (simp_all add: takeWhile_length_iff)
  then have "n < length s" by simp
  then have d: "drop n s = s ! n # drop (Suc n) s"
    by (simp add: Cons_nth_drop_Suc)
  from n \<open>n < length s\<close> have "P (s ! n)"
    by (simp add: take_Suc_conv_app_nth)
  with d show ?thesis
    by (simp add: head_opt_def)
qed

lemma run_ends_at:
  assumes "n \<le> length (takeWhile P s)" "head_opt (drop n s) = Some c" "\<not> P c"
  shows "n = length (takeWhile P s)"
proof (rule ccontr)
  assume "n \<noteq> length (takeWhile P s)"
  with assms(1) have "n < length (takeWhile P s)" by simp
  from head_opt_in_run[OF this] assms(2,3) show False by auto
qed

lemma at_not_local: "\<not> is_local_char CHR ''@''"
  by (simp add: is_local_char_def is_alnum_ascii_def)

lemma dot_not_tld: "\<not> is_tld_char CHR ''.''"
  by (simp add: is_tld_char_def)

lemma match_tld_None:
  assumes "match_tld s k s4 = None" "2 \<le> nt" "nt \<le> length (takeWhile is_tld_char s4)"
  shows "\<not> word_boundary (head_opt (drop (nt - 1) s4)) (head_opt (drop nt s4))"
proof -
  from assms(1) have "first_some
       (\<lambda>nt. if word_boundary (head_opt (drop (nt - 1) s4)) (head_opt (drop nt s4))
             then Some (take (k + nt) s) else None)
       (rev [2 ..< Suc (length (takeWhile is_tld_char s4))]) = None"
    by (simp add: match_tld_def greedy_lengths_def)
  from first_some_upt_None[OF this, of nt] assms(2,3) show ?thesis
    by (simp split: if_splits)
qed

lemma match_tld_Some:
  assumes "match_tld s k s4 = Some m"
  shows "\<exists>nt. 2 \<le> nt \<and> nt \<le> length (takeWhile is_tld_char s4)
           \<and> word_boundary (head_opt (drop (nt - 1) s4)) (head_opt (drop nt s4))
           \<and> m = take (k + nt) s
           \<and> (\<forall>nt'. nt < nt' \<and> nt' \<le> length (takeWhile is_tld_char s4)
                 \<longrightarrow> \<not> word_boundary (head_opt (drop (nt' - 1) s4)) (head_opt (drop nt' s4)))"
proof -
  let ?f = "\<lambda>nt. if word_boundary (head_opt (drop (nt - 1) s4)) (head_opt (drop nt s4))
             then Some (take (k + nt) s) else None"
  from assms have f: "first_some ?f (rev [2 ..< Suc (length (takeWhile is_tld_char s4))]) = Some m"
    by (simp add: match_tld_def greedy_lengths_def)
  from first_some_upt_Some[OF f] obtain nt where
    nt: "2 \<le> nt" "nt < Suc (length (takeWhile is_tld_char s4))" "?f nt = Some m"
    and mx: "\<And>n'. nt < n' \<Longrightarrow> n' < Suc (length (takeWhile is_tld_char s4)) \<Longrightarrow> ?f n' = None"
    by blast
  from nt(3) have w: "word_boundary (head_opt (drop (nt - 1) s4)) (head_opt (drop nt s4))"
    by (simp split: if_splits)
  from nt(3) have m: "m = take (k + nt) s"
    by (simp split: if_splits)
  have "\<not> word_boundary (head_opt (drop (nt' - 1) s4)) (head_opt (drop nt' s4))"
    if "nt < nt' \<and> nt' \<le> length (takeWhile is_tld_char s4)" for nt'
  proof -
    from that have "nt < nt'" "nt' < Suc (length (takeWhile is_tld_char s4))"
      by simp_all
    from mx[OF this] show ?thesis by (simp split: if_splits)
  qed
  with nt(1,2) w m show ?thesis
    by (intro exI[of _ nt]) simp
qed

lemma match_domain_None:
  assumes "match_domain s k s2 = None" "1 \<le> nd" "nd \<le> length (takeWhile is_domain_char s2)"
    "head_opt (drop nd s2) = Some CHR ''.''"
  shows "match_tld s (k + nd + 1) (drop (nd + 1) s2) = None"
proof -
  from assms(1) have "first_some
       (\<lambda>nd. if head_opt (drop nd s2) = Some CHR ''.''
             then match_tld s (k + nd + 1) (drop (nd + 1) s2) else None)
       (rev [1 ..< Suc (length (takeWhile is_domain_char s2))]) = None"
    by (simp add: match_domain_def greedy_lengths_def)
  from first_some_upt_None[OF this, of nd] assms(2,3,4) show ?thesis
    by simp
qed

lemma match_domain_Some:
  assumes "match_domain s k s2 = Some m"
  shows "\<exists>nd. 1 \<le> nd \<and> nd \<le> length (takeWhile is_domain_char s2)
           \<and> head_opt (drop nd s2) = Some CHR ''.''
           \<and> match_tld s (k + nd + 1) (drop (nd + 1) s2) = Some m
           \<and> (\<forall>nd'. nd < nd' \<and> nd' \<le> length (takeWhile is_domain_char s2)
                   \<and> head_opt (drop nd' s2) = Some CHR ''.''
                 \<longrightarrow> match_tld s (k + nd' + 1) (drop (nd' + 1) s2) = None)"
proof -
  let ?g = "\<lambda>nd. if head_opt (drop nd s2) = Some CHR ''.''
             then match_tld s (k + nd + 1) (drop (nd + 1) s2) else None"
  from assms have f: "first_some ?g (rev [1 ..< Suc (length (takeWhile is_domain_char s2))]) = Some m"
    by (simp add: match_domain_def greedy_lengths_def)
  from first_some_upt_Some[OF f] obtain nd where
    nd: "1 \<le> nd" "nd < Suc (length (takeWhile is_domain_char s2))" "?g nd = Some m"
    and mx: "\<And>n'. nd < n' \<Longrightarrow> n' < Suc (length (takeWhile is_domain_char s2)) \<Longrightarrow> ?g n' = None"
    by blast
  from nd(3) have d: "head_opt (drop nd s2) = Some CHR ''.''"
    by (simp split: if_splits)
  with nd(3) have t: "match_tld s (k + nd + 1) (drop (nd + 1) s2) = Some m"
    by simp
  have "match_tld s (k + nd' + 1) (drop (nd' + 1) s2) = None"
    if "nd < nd' \<and> nd' \<le> length (takeWhile is_domain_char s2)
          \<and> head_opt (drop nd' s2) = Some CHR ''.''" for nd'
  proof -
    from that have "nd < nd'" "nd' < Suc (length (takeWhile is_domain_char s2))"
      by simp_all
    from mx[OF this] that show ?thesis by simp
  qed
  with nd(1,2) d t show ?thesis
    by (intro exI[of _ nd]) simp
qed

lemma match_email_at_None:
  assumes "match_email_at prev s = None" "word_boundary prev (head_opt s)"
    "1 \<le> nl" "nl \<le> length (takeWhile is_local_char s)"
    "head_opt (drop nl s) = Some CHR ''@''"
  shows "match_domain s (nl + 1) (drop (nl + 1) s) = None"
proof -
  from assms(1,2) have "first_some
             (\<lambda>nl. if head_opt (drop nl s) = Some CHR ''@''
                   then match_domain s (nl + 1) (drop (nl + 1) s) else None)
             (rev [1 ..< Suc (length (takeWhile is_local_char s))]) = None"
    by (simp add: match_email_at_def greedy_lengths_def)
  from first_some_upt_None[OF this, of nl] assms(3,4,5) show ?thesis
    by simp
qed

lemma match_email_at_Some:
  assumes "match_email_at prev s = Some m"
  shows "\<exists>nl. word_boundary prev (head_opt s)
           \<and> 1 \<le> nl \<and> nl \<le> length (takeWhile is_local_char s)
           \<and> head_opt (drop nl s) = Some CHR ''@''
           \<and> match_domain s (nl + 1) (drop (nl + 1) s) = Some m"
proof -
  let ?h = "\<lambda>nl. if head_opt (drop nl s) = Some CHR ''@''
                   then match_domain s (nl + 1) (drop (nl + 1) s) else None"
  from assms have w: "word_boundary prev (head_opt s)"
    by (simp add: match_email_at_def split: if_splits)
  with assms have f: "first_some ?h (rev [1 ..< Suc (length (takeWhile is_local_char s))]) = Some m"
    by (simp add: match_email_at_def greedy_lengths_def)
  from first_some_upt_Some[OF f] obtain nl where
    nl: "1 \<le> nl" "nl < Suc (length (takeWhile is_local_char s))" "?h nl = Some m"
    by blast
  from nl(3) have a: "head_opt (drop nl s) = Some CHR ''@''"
    by (simp split: if_splits)
  with nl(3) have "match_domain s (nl + 1) (drop (nl + 1) s) = Some m"
    by simp
  with w nl(1,2) a show ?thesis
    by (intro exI[of _ nl]) simp
qed

lemma shaped_split_matches:
  assumes "shaped_split prev s nl nd nt"
  shows "match_email_at prev s \<noteq> None"
proof
  assume n: "match_email_at prev s = None"
  from assms have w: "word_boundary prev (head_opt s)"
    and nl: "1 \<le> nl" "nl \<le> length (takeWhile is_local_char s)"
      "head_opt (drop nl s) = Some CHR ''@''"
    and nd: "1 \<le> nd" "nd \<le> length (takeWhile is_domain_char (drop (nl + 1) s))"
      "head_opt (drop nd (drop (nl + 1) s)) = Some CHR ''.''"
    and nt: "2 \<le> nt" "nt \<le> length (takeWhile is_tld_char (drop (nd + 1) (drop (nl + 1) s)))"
    and e: "word_boundary (head_opt (drop (nt - 1) (drop (nd + 1) (drop (nl + 1) s))))
                       (head_opt (drop nt (drop (nd + 1) (drop (nl + 1) s))))"
    unfolding shaped_split_def by blast+
  from match_email_at_None[OF n w nl]
  have "match_domain s (nl + 1) (drop (nl + 1) s) = None" .
  from match_domain_None[OF this nd]
  have "match_tld s (nl + 1 + nd + 1) (drop (nd + 1) (drop (nl + 1) s)) = None" .
  from match_tld_None[OF this nt] e show False by blast
qed

lemma match_email_at_split:
  assumes "match_email_at prev s = Some m"
  shows "\<exists>nl nd nt. shaped_split prev s nl nd nt \<and> m = take (nl + 1 + nd + 1 + nt) s
           \<and> (\<forall>nl' nd' nt'. shaped_split prev s nl' nd' nt'
                  \<longrightarrow> nl' + nd' + nt' \<le> nl + nd + nt)"
proof -
  from match_email_at_Some[OF assms] obtain nl where
    w: "word_boundary prev (head_opt s)"
    and nl: "1 \<le> nl" "nl \<le> length (takeWhile is_local_char s)"
      "head_opt (drop nl s) = Some CHR ''@''"
    and d: "match_domain s (nl + 1) (drop (nl + 1) s) = Some m"
    by blast
  let ?s2 = "drop (nl + 1) s"
  from match_domain_Some[OF d] obtain nd where
    nd: "1 \<le> nd" "nd \<le> length (takeWhile is_domain_char ?s2)"
      "head_opt (drop nd ?s2) = Some CHR ''.''"
    and t: "match_tld s (nl + 1 + nd + 1) (drop (nd + 1) ?s2) = Some m"
    and dmx: "\<And>nd'. nd < nd' \<and> nd' \<le> length (takeWhile is_domain_char ?s2)
                   \<and> head_opt (drop nd' ?s2) = Some CHR ''.''
                 \<Longrightarrow> match_tld s (nl + 1 + nd' + 1) (drop (nd' + 1) ?s2) = None"
    by blast
  let ?s4 = "drop (nd + 1) ?s2"
  from match_tld_Some[OF t] obtain nt where
    nt: "2 \<le> nt" "nt \<le> length (takeWhile is_tld_char ?s4)"
    and e: "word_boundary (head_opt (drop (nt - 1) ?s4)) (head_opt (drop nt ?s4))"
    and m: "m = take (nl + 1 + nd + 1 + nt) s"
    and tmx: "\<And>nt'. nt < nt' \<and> nt' \<le> length (takeWhile is_tld_char ?s4)
                 \<Longrightarrow> \<not> word_boundary (head_opt (drop (nt' - 1) ?s4)) (head_opt (drop nt' ?s4))"
    by blast
  from w nl nd nt e have split: "shaped_split prev s nl nd nt"
    unfolding shaped_split_def by blast
  have mx: "nl' + nd' + nt' \<le> nl + nd + nt" if "shaped_split prev s nl' nd' nt'" for nl' nd' nt'
  proof -
    from that have
      nl': "nl' \<le> length (takeWhile is_local_char s)" "head_opt (drop nl' s) = Some CHR ''@''"
      and nd': "1 \<le> nd'" "nd' \<le> length (takeWhile is_domain_char (drop (nl' + 1) s))"
        "head_opt (drop nd' (drop (nl' + 1) s)) = Some CHR ''.''"
      and nt': "2 \<le> nt'"
        "nt' \<le> length (takeWhile is_tld_char (drop (nd' + 1) (drop (nl' + 1) s)))"
      and e': "word_boundary (head_opt (drop (nt' - 1) (drop (nd' + 1) (drop (nl' + 1) s))))
                       (head_opt (drop nt' (drop (nd' + 1) (drop (nl' + 1) s))))"
      unfolding shaped_split_def by blast+
    from run_ends_at[OF nl'(1,2) at_not_local] run_ends_at[OF nl(2,3) at_not_local]
    have eq: "nl' = nl" by simp
    note nd' = nd'[unfolded eq] and nt' = nt'[unfolded eq] and e' = e'[unfolded eq]
    have t': "match_tld s (nl + 1 + nd' + 1) (drop (nd' + 1) ?s2) \<noteq> None"
      using match_tld_None[OF _ nt'] e' by blast
    have le: "nd' \<le> nd"
    proof (rule ccontr)
      assume "\<not> nd' \<le> nd"
      with nd'(2,3) have "nd < nd' \<and> nd' \<le> length (takeWhile is_domain_char ?s2)
                   \<and> head_opt (drop nd' ?s2) = Some CHR ''.''"
        by simp
      from dmx[OF this] t' show False by blast
    qed
    have "nd' + nt' \<le> nd + nt"
    proof (cases "nd' = nd")
      case True
      have "nt' \<le> nt"
      proof (rule ccontr)
        assume "\<not> nt' \<le> nt"
        with nt'(2) True have "nt < nt' \<and> nt' \<le> length (takeWhile is_tld_char ?s4)"
          by simp
        from tmx[OF this] e' True show False by simp
      qed
      with True show ?thesis by simp
    next
      case False
      with le have lt: "nd' < nd" by simp
      have "nd' + 1 + nt' \<le> nd"
      proof (rule ccontr)
        assume "\<not> nd' + 1 + nt' \<le> nd"
        with lt have "nd - (nd' + 1) < nt'"
          by arith
        from less_le_trans[OF this nt'(2)]
        have "nd - (nd' + 1) < length (takeWhile is_tld_char (drop (nd' + 1) ?s2))" .
        from head_opt_in_run[OF this] obtain c where
          c: "head_opt (drop (nd - (nd' + 1)) (drop (nd' + 1) ?s2)) = Some c" "is_tld_char c"
          by blast
        from lt have "nd - (nd' + 1) + (nd' + 1) = nd" by simp
        have "drop (nd - (nd' + 1)) (drop (nd' + 1) ?s2) = drop (nd - (nd' + 1) + (nd' + 1)) ?s2"
          by (rule drop_drop)
        with \<open>nd - (nd' + 1) + (nd' + 1) = nd\<close>
        have "drop (nd - (nd' + 1)) (drop (nd' + 1) ?s2) = drop nd ?s2"
          by (simp only:)
        with c nd(3) dot_not_tld show False by simp
      qed
      then show ?thesis by simp
    qed
    with eq show ?thesis by simp
  qed
  from split m mx show ?thesis by blast
qed

lemma head_opt_last:
  "xs \<noteq> [] \<Longrightarrow> head_opt (drop (length xs - 1) (xs @ r)) = Some (last xs)"
  by (induction xs) (auto simp: head_opt_def drop_Cons' split: list.splits)

lemma head_opt_append: "xs \<noteq> [] \<Longrightarrow> head_opt (xs @ r) = head_opt xs"
  by (cases xs) (simp_all add: head_opt_def)

lemma shaped_split_parts:
  "shaped_split prev (local @ CHR ''@'' # domain @ CHR ''.'' # tld @ rest)
       (length local) (length domain) (length tld)
     \<longleftrightarrow> word_boundary prev (head_opt (local @ CHR ''@'' # domain @ CHR ''.'' # tld @ rest))
          \<and> local \<noteq> [] \<and> list_all is_local_char local
          \<and> domain \<noteq> [] \<and> list_all is_domain_char domain
          \<and> 2 \<le> length tld \<and> list_all is_tld_char tld
          \<and> word_boundary (head_opt (drop (length tld - 1) (tld @ rest))) (head_opt rest)"
  by (simp add: shaped_split_def takeWhile_length_iff head_opt_Cons Suc_le_eq)

lemma take_length_append: "take (length xs) (xs @ r) = xs"
  by simp

lemma drop_length_append: "drop (length xs) (xs @ r) = r"
  by simp

lemma token_split:
  assumes "prefix tok s" "email_shaped prev tok (head_opt (drop (length tok) s))"
  shows "\<exists>nl nd nt. shaped_split prev s nl nd nt \<and> length tok = nl + 1 + nd + 1 + nt"
proof -
  from assms(2) obtain local domain tld where
    tok: "tok = local @ ''@'' @ domain @ ''.'' @ tld"
    and parts: "local \<noteq> []" "list_all is_local_char local"
      "domain \<noteq> []" "list_all is_domain_char domain"
      "2 \<le> length tld" "list_all is_tld_char tld"
    and w: "word_boundary prev (head_opt tok)"
    and e: "word_boundary (Some (last tok)) (head_opt (drop (length tok) s))"
    unfolding email_shaped_def by blast
  from assms(1) obtain rest where s: "s = tok @ rest"
    by (auto elim: prefixE)
  from parts(5) have tld: "tld \<noteq> []" by auto
  from tok s have s': "s = local @ CHR ''@'' # domain @ CHR ''.'' # tld @ rest"
    by simp
  from tok tld have l: "last tok = last tld" by simp
  from tok parts(1) s' have h: "head_opt s = head_opt tok"
    by (simp add: head_opt_append)
  from s have r: "drop (length tok) s = rest" by simp
  from w h have 1: "word_boundary prev (head_opt (local @ CHR ''@'' # domain @ CHR ''.'' # tld @ rest))"
    by (simp add: s')
  from e l r have "word_boundary (Some (last tld)) (head_opt rest)"
    by simp
  then have 2: "word_boundary (head_opt (drop (length tld - 1) (tld @ rest))) (head_opt rest)"
    unfolding head_opt_last[OF tld] .
  from 1 2 parts have "shaped_split prev s (length local) (length domain) (length tld)"
    unfolding s' shaped_split_parts by blast
  moreover from tok have "length tok = length local + 1 + length domain + 1 + length tld"
    by simp
  ultimately show ?thesis by blast
qed

lemma split_token:
  assumes "shaped_split prev s nl nd nt"
  shows "email_shaped prev (take (nl + 1 + nd + 1 + nt) s)
           (head_opt (drop (nl + 1 + nd + 1 + nt) s))
         \<and> length (take (nl + 1 + nd + 1 + nt) s) = nl + 1 + nd + 1 + nt"
proof -
  let ?s2 = "drop (nl + 1) s"
  let ?s4 = "drop (nd + 1) ?s2"
  from assms have
    nl: "nl \<le> length (takeWhile is_local_char s)" "head_opt (drop nl s) = Some CHR ''@''"
    and nd: "nd \<le> length (takeWhile is_domain_char ?s2)"
      "head_opt (drop nd ?s2) = Some CHR ''.''"
    and nt: "nt \<le> length (takeWhile is_tld_char ?s4)"
    unfolding shaped_split_def by blast+
  define local where "local = take nl s"
  define domain where "domain = take nd ?s2"
  define tld where "tld = take nt ?s4"
  define rest where "rest = drop nt ?s4"
  from nl(1) have ll: "length local = nl"
    by (simp add: local_def takeWhile_length_iff)
  from nd(1) have ld: "length domain = nd"
    by (simp add: domain_def takeWhile_length_iff)
  from nt have lt: "length tld = nt"
    by (simp add: tld_def takeWhile_length_iff)
  from head_opt_split[OF nl(2)] have 1: "s = local @ CHR ''@'' # ?s2"
    by (simp add: local_def)
  from head_opt_split[OF nd(2)] have 2: "?s2 = domain @ CHR ''.'' # ?s4"
    by (simp add: domain_def)
  have 3: "?s4 = tld @ rest"
    by (simp only: tld_def rest_def append_take_drop_id)
  from 1 2 3 have s: "s = local @ CHR ''@'' # domain @ CHR ''.'' # tld @ rest"
    by (simp only:)
  let ?tok = "local @ CHR ''@'' # domain @ CHR ''.'' # tld"
  have s2: "s = ?tok @ rest"
    by (subst s) simp
  have n: "nl + 1 + nd + 1 + nt = length ?tok"
    by (simp add: ll ld lt)
  have tk: "take (nl + 1 + nd + 1 + nt) s = ?tok"
    unfolding n by (subst s2) (rule take_length_append)
  have dr: "drop (nl + 1 + nd + 1 + nt) s = rest"
    unfolding n by (subst s2) (rule drop_length_append)
  from assms have "shaped_split prev (local @ CHR ''@'' # domain @ CHR ''.'' # tld @ rest)
       (length local) (length domain) (length tld)"
    by (simp only: ll ld lt flip: s)
  then have parts: "word_boundary prev (head_opt (local @ CHR ''@'' # domain @ CHR ''.'' # tld @ rest))"
    "local \<noteq> []" "list_all is_local_char local"
    "domain \<noteq> []" "list_all is_domain_char domain"
    "2 \<le> length tld" "list_all is_tld_char tld"
    "word_boundary (head_opt (drop (length tld - 1) (tld @ rest))) (head_opt rest)"
    unfolding shaped_split_parts by blast+
  from parts(6) have tld: "tld \<noteq> []" by auto
  from parts(1,2) have w: "word_boundary prev (head_opt ?tok)"
    by (simp add: head_opt_append)
  from parts(8) have "word_boundary (Some (last tld)) (head_opt rest)"
    unfolding head_opt_last[OF tld] .
  with tld have e: "word_boundary (Some (last ?tok)) (head_opt rest)"
    by simp
  have "?tok = local @ ''@'' @ domain @ ''.'' @ tld"
    by simp
  with parts(2-7) w e have "email_shaped prev ?tok (head_opt rest)"
    unfolding email_shaped_def by blast
  with tk dr n show ?thesis
    by (simp only:)
qed

lemma scan_email_first:
  "scan_email prev s = Some m \<Longrightarrow>
     \<exists>i. match_email_at (if i = 0 then prev else head_opt (drop (i - 1) s)) (drop i s) = Some m
        \<and> (\<forall>j<i. match_email_at (if j = 0 then prev else head_opt (drop (j - 1) s)) (drop j s)
                    = None)"
proof (induction prev s rule: scan_email.induct)
  case (1 prev)
  then show ?case by simp
next
  case (2 prev c cs)
  show ?case
  proof (cases "match_email_at prev (c # cs)")
    case (Some m')
    with "2.prems" have "match_email_at prev (c # cs) = Some m" by simp
    then show ?thesis
      by (intro exI[of _ 0]) simp
  next
    case None
    with "2.prems" have "scan_email (Some c) cs = Some m" by simp
    from "2.IH"[OF None this] obtain i where
      i: "match_email_at (if i = 0 then Some c else head_opt (drop (i - 1) cs)) (drop i cs)
            = Some m"
      and mn: "\<And>j. j < i \<Longrightarrow>
          match_email_at (if j = 0 then Some c else head_opt (drop (j - 1) cs)) (drop j cs) = None"
      by blast
    have pb: "head_opt (drop k (c # cs)) = (if k = 0 then Some c else head_opt (drop (k - 1) cs))"
      for k
      by (cases k) (simp_all add: head_opt_Cons)
    have "match_email_at (if j = 0 then prev else head_opt (drop (j - 1) (c # cs)))
            (drop j (c # cs)) = None" if "j < Suc i" for j
    proof (cases j)
      case 0
      with None show ?thesis by simp
    next
      case (Suc j')
      with that have "j' < i" by simp
      from mn[OF this] Suc show ?thesis by (simp add: pb)
    qed
    with i show ?thesis
      by (intro exI[of _ "Suc i"]) (simp add: pb)
  qed
qed

lemma extract_email_first:
  assumes "extract_email msg = Some email"
  shows "\<exists>i. email_token_at msg i email
           \<and> (\<forall>j tok. email_token_at msg j tok
                  \<longrightarrow> i \<le> j \<and> (j = i \<longrightarrow> length tok \<le> length email))"
proof -
  from assms have "scan_email None msg = Some email"
    by (simp add: extract_email_def)
  from scan_email_first[OF this] obtain i where
    i: "match_email_at (char_before msg i) (drop i msg) = Some email"
    and mn: "\<And>j. j < i \<Longrightarrow> match_email_at (char_before msg j) (drop j msg) = None"
    unfolding char_before_def by blast
  from match_email_at_split[OF i] obtain nl nd nt where
    split: "shaped_split (char_before msg i) (drop i msg) nl nd nt"
    and m: "email = take (nl + 1 + nd + 1 + nt) (drop i msg)"
    and mx: "\<And>nl' nd' nt'. shaped_split (char_before msg i) (drop i msg) nl' nd' nt'
                  \<Longrightarrow> nl' + nd' + nt' \<le> nl + nd + nt"
    by blast
  from split_token[OF split] m have
    sh: "email_shaped (char_before msg i) email (head_opt (drop (nl + 1 + nd + 1 + nt) (drop i msg)))"
    and len: "length email = nl + 1 + nd + 1 + nt"
    by simp_all
  have "drop (nl + 1 + nd + 1 + nt) (drop i msg) = drop (i + length email) msg"
    by (simp add: len add.commute)
  with sh have "email_shaped (char_before msg i) email (head_opt (drop (i + length email) msg))"
    by (simp only:)
  moreover from m have "prefix email (drop i msg)"
    by (simp add: take_is_prefix)
  ultimately have tok: "email_token_at msg i email"
    by (simp add: email_token_at_def)
  have "i \<le> j \<and> (j = i \<longrightarrow> length tok \<le> length email)" if "email_token_at msg j tok" for j tok
  proof -
    from that have p: "prefix tok (drop j msg)"
      and "email_shaped (char_before msg j) tok (head_opt (drop (j + length tok) msg))"
      by (simp_all add: email_token_at_def)
    then have "email_shaped (char_before msg j) tok (head_opt (drop (length tok) (drop j msg)))"
      by (simp add: add.commute)
    from token_split[OF p this] obtain nl' nd' nt' where
      s': "shaped_split (char_before msg j) (drop j msg) nl' nd' nt'"
      and l': "length tok = nl' + 1 + nd' + 1 + nt'"
      by blast
    from shaped_split_matches[OF s'] mn[of j] have le: "i \<le> j"
      by (cases "j < i") simp_all
    have "length tok \<le> length email" if "j = i"
      using mx[of nl' nd' nt'] s' l' len that by simp
    with le show ?thesis by simp
  qed
  with tok show ?thesis by blast
qed

text \<open>
  Claim C10. When a request creates a lead, the email stored is the first email-shaped token
  of the message: it stands in the message at a position \<open>i\<close> and is email-shaped there, no
  email-shaped token stands at an earlier position, and none that stands at \<open>i\<close> is longer;
  it is what \<open>extract_email\<close> returns. The name stored is the part of the whole message
  before its first \<open>@\<close>, whatever the local part of the email is. The name \<open>Unknown\<close> is the
  branch taken for a message without \<open>@\<close>, which a message with an email never is.
\<close>

theorem auto_lead_fields:
  assumes "leads (db_after (chat sv (Some json) db)) \<noteq> leads db"
  shows "\<exists>email i. extract_email (json_message json) = Some email
           \<and> sublist email (json_message json)
           \<and> email_token_at (json_message json) i email
           \<and> (\<forall>j tok. email_token_at (json_message json) j tok
                  \<longrightarrow> i \<le> j \<and> (j = i \<longrightarrow> length tok \<le> length email))
           \<and> CHR ''@'' \<in> set (json_message json)
           \<and> leads (db_after (chat sv (Some json) db))
               = leads db @
                   [\<lparr>l_name = takeWhile (\<lambda>c. c \<noteq> CHR ''@'') (json_message json),
                     l_email = email, l_company = None, l_phone = None,
                     l_status = ''new'',
                     l_notes = auto_lead_notes (json_session_id json)\<rparr>]
           \<and> l_name (auto_lead m e s)
               = (if CHR ''@'' \<in> set m then takeWhile (\<lambda>c. c \<noteq> CHR ''@'') m
                  else ''Unknown'')"
proof -
  let ?sid = "json_session_id json" and ?msg = "json_message json"
  from assms have v: "?msg \<noteq> []" "services_initialized sv"
    by (auto simp: chat_def Let_def split: if_splits)
  obtain db1 tc ep cap where rt:
    "record_turn db ?sid (json_client_id json) ?msg = (db1, tc, ep, cap)"
    by (cases "record_turn db ?sid (json_client_id json) ?msg") auto
  have "leads (db_after (chat sv (Some json) db)) = leads db1"
    by (simp add: chat_turn[OF v rt] Let_def generate_snd_tables complete_snd_tables
        split: list.splits)
  with assms record_turn_leads[OF rt] obtain email where
    e: "extract_email ?msg = Some email"
    and l: "leads (db_after (chat sv (Some json) db)) = leads db @ [auto_lead ?msg email ?sid]"
    by (auto split: option.splits if_splits)
  from extract_email_has_at[OF e] have at: "CHR ''@'' \<in> set ?msg" "sublist email ?msg"
    by simp_all
  from extract_email_first[OF e] obtain i where
    tok: "email_token_at ?msg i email"
    and first: "\<forall>j tok. email_token_at ?msg j tok
                  \<longrightarrow> i \<le> j \<and> (j = i \<longrightarrow> length tok \<le> length email)"
    by blast
  have "auto_lead ?msg email ?sid
          = \<lparr>l_name = takeWhile (\<lambda>c. c \<noteq> CHR ''@'') ?msg,
             l_email = email, l_company = None, l_phone = None,
             l_status = ''new'', l_notes = auto_lead_notes ?sid\<rparr>"
    using auto_lead_name[OF at(1), of email ?sid] by (simp add: auto_lead_def)
  with l have l': "leads (db_after (chat sv (Some json) db))
               = leads db @
                   [\<lparr>l_name = takeWhile (\<lambda>c. c \<noteq> CHR ''@'') ?msg,
                     l_email = email, l_company = None, l_phone = None,
                     l_status = ''new'', l_notes = auto_lead_notes ?sid\<rparr>]"
    by simp
  have nm: "l_name (auto_lead m e s)
               = (if CHR ''@'' \<in> set m then takeWhile (\<lambda>c. c \<noteq> CHR ''@'') m
                  else ''Unknown'')"
    using auto_lead_name[of m e s] by (simp add: auto_lead_def)
  from e at tok first l' nm show ?thesis
    by blast
qed

subsection \<open>Two requests of one session\<close>

lemma extract_email_jane: "extract_email ''I am jane@acme.com'' = Some ''jane@acme.com''"
  by code_simp

lemma extract_email_bob: "extract_email ''or bob@acme.com'' = Some ''bob@acme.com''"
  by code_simp

lemma chat_valid_email_provided:
  assumes "json_message json \<noteq> []" "services_initialized sv"
  shows "email_provided_in (db_after (chat sv (Some json) db)) (json_session_id json)
           = (email_provided_in db (json_session_id json)
              \<or> extract_email (json_message json) \<noteq> None)"
proof -
  obtain db1 tc ep cap where rt:
    "record_turn db (json_session_id json) (json_client_id json) (json_message json)
       = (db1, tc, ep, cap)"
    by (cases "record_turn db (json_session_id json) (json_client_id json)
                 (json_message json)") auto
  have "sessions (db_after (chat sv (Some json) db)) = sessions db1"
    by (simp add: chat_turn[OF assms rt] Let_def generate_snd_tables complete_snd_tables
        split: list.splits)
  from email_provided_in_cong[OF this] record_turn_email_provided[OF rt]
  show ?thesis by simp
qed

lemma chat_valid_leads:
  assumes "json_message json \<noteq> []" "services_initialized sv"
  shows "leads (db_after (chat sv (Some json) db))
           = leads db @
               (case extract_email (json_message json) of
                  None \<Rightarrow> []
                | Some e \<Rightarrow>
                    if email_provided_in db (json_session_id json) then []
                    else [auto_lead (json_message json) e (json_session_id json)])"
proof -
  obtain db1 tc ep cap where rt:
    "record_turn db (json_session_id json) (json_client_id json) (json_message json)
       = (db1, tc, ep, cap)"
    by (cases "record_turn db (json_session_id json) (json_client_id json)
                 (json_message json)") auto
  have "leads (db_after (chat sv (Some json) db)) = leads db1"
    by (simp add: chat_turn[OF assms rt] Let_def generate_snd_tables complete_snd_tables
        split: list.splits)
  with record_turn_leads[OF rt] show ?thesis by simp
qed

lemma jane_valid:
  "json_message jane_request = ''I am jane@acme.com''" "json_session_id jane_request = ''s1''"
  "json_client_id jane_request = ''A''" "j_stream jane_request = Some False"
  "services_initialized demo_services" "services_initialized failing_services"
  by (simp_all add: jane_request_def json_message_def json_session_id_def json_client_id_def
      demo_services_def failing_services_def)

lemma bob_valid:
  "json_message bob_request = ''or bob@acme.com''" "json_session_id bob_request = ''s1''"
  by (simp_all add: bob_request_def json_message_def json_session_id_def)

lemma init_db_s1: "\<not> email_provided_in init_db ''s1''" "leads init_db = []"
  by (simp_all add: init_db_def email_provided_in_def)

lemma after_jane:
  "email_provided_in (db_after (chat demo_services (Some jane_request) init_db)) ''s1''"
  "leads (db_after (chat demo_services (Some jane_request) init_db))
     = [auto_lead ''I am jane@acme.com'' ''jane@acme.com'' ''s1'']"
  using chat_valid_email_provided[of jane_request demo_services init_db]
    chat_valid_leads[of jane_request demo_services init_db]
  by (simp_all add: jane_valid extract_email_jane init_db_s1)

theorem email_transition_happens_once_witness:
  "email_provided_in (final_db [(demo_services, Some jane_request)] init_db) ''s1''
   \<and> email_provided_in
       (final_db [(demo_services, Some bob_request)]
          (final_db [(demo_services, Some jane_request)] init_db)) ''s1''
   \<and> map l_email
       (auto_leads
          (final_db [(demo_services, Some bob_request)]
             (final_db [(demo_services, Some jane_request)] init_db)) ''s1'')
     = [''jane@acme.com'']"
proof -
  have a: "email_provided_in (final_db [(demo_services, Some jane_request)] init_db) ''s1''"
    by (simp add: after_jane)
  have l: "map l_email (auto_leads (final_db [(demo_services, Some jane_request)] init_db) ''s1'')
             = [''jane@acme.com'']"
    by (simp add: after_jane auto_leads_def auto_lead_def)
  from email_transition_happens_once[of "[(demo_services, Some jane_request)]" "''s1''"
      "[(demo_services, Some bob_request)]"] a l
  show ?thesis by simp
qed

lemma two_email_valid:
  "json_message two_email_request = ''to a@b.co or c@d.io''"
  "json_session_id two_email_request = ''s2''"
  "\<not> email_provided_in init_db ''s2''"
  by (simp_all add: two_email_request_def json_message_def json_session_id_def init_db_def
      email_provided_in_def)

lemma extract_email_two: "extract_email ''to a@b.co or c@d.io'' = Some ''a@b.co''"
  by code_simp

lemma token_first: "email_token_at ''to a@b.co or c@d.io'' 3 ''a@b.co''"
proof -
  have "shaped_split (Some CHR '' '') ''a@b.co or c@d.io'' 1 1 2"
    by code_simp
  from split_token[OF this] show ?thesis
    by (simp add: email_token_at_def char_before_def head_opt_def)
qed

lemma token_second: "email_token_at ''to a@b.co or c@d.io'' 13 ''c@d.io''"
proof -
  have "shaped_split (Some CHR '' '') ''c@d.io'' 1 1 2"
    by code_simp
  from split_token[OF this] show ?thesis
    by (simp add: email_token_at_def char_before_def head_opt_def)
qed

theorem auto_lead_fields_witness:
  "leads (db_after (chat demo_services (Some two_email_request) init_db)) \<noteq> leads init_db
   \<and> map l_email (leads (db_after (chat demo_services (Some two_email_request) init_db)))
       = [''a@b.co'']
   \<and> map l_name (leads (db_after (chat demo_services (Some two_email_request) init_db)))
       = [''to a'']
   \<and> email_token_at (json_message two_email_request) 3 ''a@b.co''
   \<and> email_token_at (json_message two_email_request) 13 ''c@d.io''"
proof -
  have n: "leads (db_after (chat demo_services (Some two_email_request) init_db))
             \<noteq> leads init_db"
    using chat_valid_leads[of two_email_request demo_services init_db]
    by (simp add: two_email_valid jane_valid extract_email_two init_db_s1)
  from auto_lead_fields[OF n] obtain email where
    e: "extract_email (json_message two_email_request) = Some email"
    and l: "leads (db_after (chat demo_services (Some two_email_request) init_db))
              = leads init_db @
                  [\<lparr>l_name = takeWhile (\<lambda>c. c \<noteq> CHR ''@'') (json_message two_email_request),
                    l_email = email, l_company = None, l_phone = None,
                    l_status = ''new'',
                    l_notes = auto_lead_notes (json_session_id two_email_request)\<rparr>]"
    by blast
  from e have "email = ''a@b.co''"
    by (simp add: two_email_valid extract_email_two)
  with l have "map l_email (leads (db_after (chat demo_services (Some two_email_request) init_db)))
       = [''a@b.co'']"
    "map l_name (leads (db_after (chat demo_services (Some two_email_request) init_db)))
       = [''to a'']"
    by (simp_all add: two_email_valid init_db_s1)
  with n token_first token_second show ?thesis
    by (simp add: two_email_valid)
qed

lemma jane_payload:
  "sent (chat demo_services (Some jane_request) init_db)
     = Some [(''system'', system_prompt do_not_ask ''- [Source: unknown] ''),
             (''user'', ''I am jane@acme.com'')]"
  "sent (chat failing_services (Some jane_request) init_db)
     = Some [(''system'', system_prompt do_not_ask ''- [Source: unknown] ''),
             (''user'', ''I am jane@acme.com'')]"
  by (simp_all add: chat_def jane_valid Let_def record_turn_def extract_email_jane init_db_def
      insert_session_def update_turn_count_def insert_message_def insert_lead_def
      update_email_provided_def demo_services_def failing_services_def messages_payload_def
      search_def search_query_args_def mem_query_def two_tenants_def filter_matches_def
      context_text_def context_line_def recent_history_def email_status_instruction_def
      complete_def split: prod.splits)

theorem no_solicitation_once_captured_witness:
  "sent (chat demo_services (Some jane_request) (final_db [] init_db))
     = Some [(''system'', system_prompt do_not_ask ''- [Source: unknown] ''),
             (''user'', ''I am jane@acme.com'')]
   \<and> email_provided_in
        (db_after (chat demo_services (Some jane_request) (final_db [] init_db)))
        (json_session_id jane_request)"
proof -
  have s: "sent (chat demo_services (Some jane_request) (final_db [] init_db))
     = Some [(''system'', system_prompt do_not_ask ''- [Source: unknown] ''),
             (''user'', ''I am jane@acme.com'')]"
    by (simp add: jane_payload)
  have e: "email_provided_in
        (db_after (chat demo_services (Some jane_request) (final_db [] init_db)))
        (json_session_id jane_request)"
    by (simp add: after_jane jane_valid)
  from no_solicitation_once_captured[OF s disjI2[OF e]] s e show ?thesis by simp
qed

theorem completion_failure_keeps_commits_witness:
  "sent (chat failing_services (Some jane_request) init_db)
     = Some [(''system'', system_prompt do_not_ask ''- [Source: unknown] ''),
             (''user'', ''I am jane@acme.com'')]
   \<and> create_completion failing_services
        [(''system'', system_prompt do_not_ask ''- [Source: unknown] ''),
         (''user'', ''I am jane@acme.com'')] = Inl (ServiceError ''timeout'')
   \<and> reports_error (reply (chat failing_services (Some jane_request) init_db))
   \<and> turn_count_in (db_after (chat failing_services (Some jane_request) init_db)) ''s1'' = 1
   \<and> email_provided_in (db_after (chat failing_services (Some jane_request) init_db)) ''s1''
   \<and> map l_email (leads (db_after (chat failing_services (Some jane_request) init_db)))
       = [''jane@acme.com'']"
proof -
  let ?p = "[(''system'', system_prompt do_not_ask ''- [Source: unknown] ''),
             (''user'', ''I am jane@acme.com'')]"
  have s: "sent (chat failing_services (Some jane_request) init_db) = Some ?p"
    by (simp add: jane_payload)
  have f: "create_completion failing_services ?p = Inl (ServiceError ''timeout'')"
    by (simp add: failing_services_def demo_services_def)
  then have c: "if j_stream jane_request = Some True
         then snd (create_completion_stream failing_services ?p) = Some (ServiceError ''timeout'')
         else create_completion failing_services ?p = Inl (ServiceError ''timeout'')"
    by (simp add: jane_valid)
  note kept = completion_failure_keeps_commits[OF s c]
  have z: "turn_count_in init_db ''s1'' = 0"
    by (simp add: turn_count_in_def init_db_def)
  from kept[THEN conjunct1] kept[THEN conjunct2, THEN conjunct2, THEN conjunct1]
    kept[THEN conjunct2, THEN conjunct2, THEN conjunct2] s f z
  show ?thesis
    by (simp add: jane_valid extract_email_jane init_db_s1 auto_lead_def)
qed

end
